theory Spec2Isabelle
  imports Main "HOL-Library.Sublist" "HOL-Library.Multiset"
begin

section \<open>The command line of apigentools (src/apigentools/cli.py)\<close>

text \<open>
  \<^verbatim>\<open>get_cli_parser\<close> builds an \<^verbatim>\<open>argparse.ArgumentParser\<close> with five sub-commands;
  \<^verbatim>\<open>cli\<close> calls \<^verbatim>\<open>parse_args\<close> on it. The parser is embedded as data (one record per
  \<^verbatim>\<open>add_argument\<close> call, in the order of the source), and \<^verbatim>\<open>parse_args\<close> as a function
  from the process environment and the argument strings to a namespace or an error.
\<close>

subsection \<open>Values, defaults and arguments\<close>

text \<open>
  A value held by the namespace: a string, a boolean, a list of strings, or Python's
  \<^verbatim>\<open>None\<close>.
\<close>

datatype argval = Str string | Flag bool | Strs "string list" | NoneVal

text \<open>
  The expression that the source passes as \<^verbatim>\<open>default=\<close>: a call
  \<^verbatim>\<open>env_or_val(NAME, fallback)\<close>, a literal (or a module constant), or nothing at all
  (argparse then takes \<^verbatim>\<open>None\<close>).
\<close>

datatype default_expr = EnvOrVal string argval | Literal argval | NoDefault

datatype action_kind = Store | StoreTrue

text \<open>\<^verbatim>\<open>nargs\<close>: absent (exactly one value), \<^verbatim>\<open>"?"\<close> or \<^verbatim>\<open>"*"\<close>.\<close>

datatype nargs_kind = NargsNone | NargsOptional | NargsStar

record argument =
  option_strings :: "string list"
  dest :: string
  arg_default :: default_expr
  action :: action_kind
  nargs :: nargs_kind
  required :: bool

text \<open>
  A parser holds its optional arguments, its mutually exclusive groups (each the list of
  the \<^verbatim>\<open>dest\<close>s of its members) and what it takes positionally: nothing, one positional
  argument, or a sub-command (\<^verbatim>\<open>add_subparsers(dest=..., required=...)\<close> with the parsers
  added to it). No parser of this program has more than one positional. The \<^verbatim>\<open>-h/--help\<close>
  option that argparse adds to every parser is not listed: the option table below adds it.
\<close>

datatype parser =
  Parser (optionals: "argument list") (mutex_groups: "string list list") (positional: positional)
and positional =
  NoPositional
| Positional argument
| Subparsers string bool "(string \<times> parser) list"

text \<open>
  The three shapes of \<^verbatim>\<open>add_argument\<close> in the source. argparse derives \<^verbatim>\<open>dest\<close> from the
  first long option string (\<^verbatim>\<open>--spec-repo-dir\<close> gives \<^verbatim>\<open>spec_repo_dir\<close>); it is written out
  here.
\<close>

definition store :: "string list \<Rightarrow> string \<Rightarrow> default_expr \<Rightarrow> argument" where
  "store flags d dflt =
     \<lparr>option_strings = flags, dest = d, arg_default = dflt, action = Store,
      nargs = NargsNone, required = False\<rparr>"

definition store_true :: "string list \<Rightarrow> string \<Rightarrow> default_expr \<Rightarrow> argument" where
  "store_true flags d dflt =
     \<lparr>option_strings = flags, dest = d, arg_default = dflt, action = StoreTrue,
      nargs = NargsNone, required = False\<rparr>"

text \<open>
  A positional argument is required unless its \<^verbatim>\<open>nargs\<close> is \<^verbatim>\<open>"?"\<close> or \<^verbatim>\<open>"*"\<close>
  (argparse's \<^verbatim>\<open>_get_positional_kwargs\<close>).
\<close>

definition positional_arg :: "string \<Rightarrow> default_expr \<Rightarrow> nargs_kind \<Rightarrow> argument" where
  "positional_arg d dflt n =
     \<lparr>option_strings = [], dest = d, arg_default = dflt, action = Store,
      nargs = n, required = (n = NargsNone)\<rparr>"

subsection \<open>get_cli_parser\<close>

definition generate_parser :: parser where
  "generate_parser = Parser
     [store [''-s'', ''--spec-dir''] ''spec_dir''
        (EnvOrVal ''APIGENTOOLS_SPEC_DIR'' (Str ''spec'')),
      store [''-f'', ''--full-spec-file''] ''full_spec_file''
        (EnvOrVal ''APIGENTOOLS_FULL_SPEC_FILE'' (Str ''full_spec.yaml'')),
      store [''-g'', ''--generated-code-dir''] ''generated_code_dir''
        (EnvOrVal ''APIGENTOOLS_GENERATED_CODE_DIR'' (Str ''generated'')),
      (store [''--additional-stamp''] ''additional_stamp'' (Literal (Strs [])))
        \<lparr>nargs := NargsStar\<rparr>,
      store [''-i'', ''--generated-with-image''] ''generated_with_image''
        (EnvOrVal ''APIGENTOOLS_IMAGE'' (Str ''NO IMAGE!'')),
      store [''-d'', ''--downstream-templates-dir''] ''downstream_templates_dir''
        (EnvOrVal ''APIGENTOOLS_DOWNSTREAM_TEMPLATES_DIR'' (Str ''downstream-templates'')),
      store [''-t'', ''--template-dir''] ''template_dir''
        (EnvOrVal ''APIGENTOOLS_TEMPLATES_DIR'' (Str ''templates'')),
      store_true [''--builtin-templates''] ''builtin_templates'' (Literal (Flag False))]
     [[''template_dir'', ''builtin_templates'']]
     NoPositional"

definition jar_parser :: parser where
  "jar_parser = Parser [] [] (Positional (positional_arg ''jar_path'' NoDefault NargsNone))"

definition local_parser :: parser where
  "local_parser = Parser [] [] (Positional (positional_arg ''local_path'' NoDefault NargsNone))"

text \<open>
  \<^verbatim>\<open>OPENAPI_GENERATOR_GIT\<close> comes from \<^verbatim>\<open>apigentools.constants\<close>, which is not among the
  sources; it is a parameter.
\<close>

definition git_parser :: "string \<Rightarrow> parser" where
  "git_parser OPENAPI_GENERATOR_GIT = Parser
     [store [''-u'', ''--repo_url''] ''repo_url'' (Literal (Str OPENAPI_GENERATOR_GIT))]
     []
     (Positional (positional_arg ''git_committish'' (Literal (Str ''master'')) NargsOptional))"

definition templates_parser :: "string \<Rightarrow> parser" where
  "templates_parser OPENAPI_GENERATOR_GIT = Parser
     [store [''-o'', ''--output-dir''] ''output_dir''
        (EnvOrVal ''APIGENTOOLS_TEMPLATES_DIR'' (Str ''templates'')),
      store [''-p'', ''--template-patches-dir''] ''template_patches_dir''
        (EnvOrVal ''APIGENTOOLS_TEMPLATE_PATCHES_DIR'' (Str ''template-patches''))]
     []
     (Subparsers ''templates_source'' True
        [(''openapi-jar'', jar_parser),
         (''local-dir'', local_parser),
         (''openapi-git'', git_parser OPENAPI_GENERATOR_GIT)])"

definition validate_parser :: parser where
  "validate_parser = Parser
     [store [''-s'', ''--spec-dir''] ''spec_dir''
        (EnvOrVal ''APIGENTOOLS_SPEC_DIR'' (Str ''spec'')),
      store [''-f'', ''--full-spec-file''] ''full_spec_file''
        (EnvOrVal ''APIGENTOOLS_FULL_SPEC_FILE'' (Str ''full_spec.yaml''))]
     []
     NoPositional"

definition test_parser :: parser where
  "test_parser = Parser
     [store_true [''--no-cache''] ''no_cache''
        (EnvOrVal ''APIGENTOOLS_TEST_BUILD_NO_CACHE'' (Flag False)),
      store [''-g'', ''--generated-code-dir''] ''generated_code_dir''
        (EnvOrVal ''APIGENTOOLS_GENERATED_CODE_DIR'' (Str ''generated''))]
     []
     NoPositional"

definition split_parser :: parser where
  "split_parser = Parser
     [(store [''-i'', ''--input-file''] ''input_file'' NoDefault) \<lparr>required := True\<rparr>,
      store [''-s'', ''--spec-dir''] ''spec_dir''
        (EnvOrVal ''APIGENTOOLS_SPEC_DIR'' (Str ''spec'')),
      store [''-v'', ''--api-version''] ''api_version''
        (EnvOrVal ''APIGENTOOLS_SPLIT_SPEC_VERSION'' (Str ''v1''))]
     []
     NoPositional"

definition get_cli_parser :: "string \<Rightarrow> parser" where
  "get_cli_parser OPENAPI_GENERATOR_GIT = Parser
     [store [''-r'', ''--spec-repo-dir''] ''spec_repo_dir''
        (EnvOrVal ''APIGENTOOLS_SPEC_REPO_DIR'' (Str ''.'')),
      store [''-c'', ''--config-dir''] ''config_dir''
        (EnvOrVal ''APIGENTOOLS_CONFIG_DIR'' (Str ''config'')),
      store_true [''-v'', ''--verbose''] ''verbose''
        (EnvOrVal ''APIGENTOOLS_VERBOSE'' (Flag False))]
     []
     (Subparsers ''action'' True
        [(''generate'', generate_parser),
         (''templates'', templates_parser OPENAPI_GENERATOR_GIT),
         (''validate'', validate_parser),
         (''test'', test_parser),
         (''split'', split_parser)])"

subsection \<open>All arguments of a parser\<close>

text \<open>
  Every argument added by an \<^verbatim>\<open>add_argument\<close> call, those of the sub-commands included,
  each with the path of sub-command names that leads to it.
\<close>

fun all_arguments :: "parser \<Rightarrow> (string list \<times> argument) list"
and positional_arguments :: "positional \<Rightarrow> (string list \<times> argument) list"
and choices_arguments :: "(string \<times> parser) list \<Rightarrow> (string list \<times> argument) list"
where
  "all_arguments (Parser opts groups pos) =
     map (Pair []) opts @ positional_arguments pos"
| "positional_arguments NoPositional = []"
| "positional_arguments (Positional a) = [([], a)]"
| "positional_arguments (Subparsers d r choices) = choices_arguments choices"
| "choices_arguments [] = []"
| "choices_arguments ((name, p) # choices) =
     map (\<lambda>(path, a). (name # path, a)) (all_arguments p) @ choices_arguments choices"

subsection \<open>The environment\<close>

type_synonym environ = "string \<rightharpoonup> string"

text \<open>
  Modelled from the spec: \<^verbatim>\<open>env_or_val\<close> of \<^verbatim>\<open>apigentools.utils\<close>, which is not among the
  sources. The specification calls the defaults ``supplied via environment variables'' with
  ``environment-variable overrides'': the variable's value when it is set, the fallback
  otherwise.
\<close>

definition env_or_val :: "environ \<Rightarrow> string \<Rightarrow> argval \<Rightarrow> argval" where
  "env_or_val env name val = (case env name of Some v \<Rightarrow> Str v | None \<Rightarrow> val)"

text \<open>
  The source evaluates every \<^verbatim>\<open>default=\<close> expression when \<^verbatim>\<open>get_cli_parser\<close> runs, which
  \<^verbatim>\<open>cli\<close> does right before parsing, in the same environment.
\<close>

fun eval_default :: "environ \<Rightarrow> default_expr \<Rightarrow> argval" where
  "eval_default env (EnvOrVal name val) = env_or_val env name val"
| "eval_default env (Literal v) = v"
| "eval_default env NoDefault = NoneVal"

subsection \<open>argparse: reading one argument string\<close>

text \<open>
  The rest of this section follows \<^verbatim>\<open>argparse.py\<close> of CPython 3.11, restricted to what
  the parsers above use: \<^verbatim>\<open>store\<close> and \<^verbatim>\<open>store_true\<close> actions, the help option,
  \<^verbatim>\<open>nargs\<close> absent, \<^verbatim>\<open>"?"\<close> or \<^verbatim>\<open>"*"\<close>, at most one positional per parser, sub-commands,
  mutually exclusive groups that are not required, the prefix character \<^verbatim>\<open>-\<close>, abbreviations
  allowed, no type conversion and no \<^verbatim>\<open>choices\<close> other than the sub-command names.
  Actions are identified by their \<^verbatim>\<open>dest\<close>, which is unique within each parser here.
\<close>

datatype opt_action = HelpAction | ArgAction argument

text \<open>\<^verbatim>\<open>_option_string_actions\<close>, in insertion order: the help option first.\<close>

definition option_string_actions :: "parser \<Rightarrow> (string \<times> opt_action) list" where
  "option_string_actions p =
     [(''-h'', HelpAction), (''--help'', HelpAction)] @
     concat (map (\<lambda>a. map (\<lambda>s. (s, ArgAction a)) (option_strings a)) (optionals p))"

text \<open>
  What an argument string is taken for: an option (the action found, if any, the option
  string, and the explicit argument glued to it, with whether an \<^verbatim>\<open>=\<close> separated it), a
  plain argument (\<^verbatim>\<open>A\<close> in argparse's pattern), or the first \<^verbatim>\<open>--\<close>.
\<close>

datatype token_class =
  Opt "opt_action option" string "(bool \<times> string) option"
| Arg
| DashDash

datatype parse_error =
  Ambiguous_option string
| Expected_one_argument string
| Ignored_explicit_argument string
| Not_allowed_with string string
| Invalid_choice string
| Required_missing "string list"
| Unrecognized_arguments "string list"
| Help_exit

definition digit :: "char \<Rightarrow> bool" where
  "digit c = (c \<in> set ''0123456789'')"

text \<open>
  \<^verbatim>\<open>_negative_number_matcher\<close>, the regular expression \<^verbatim>\<open>^-\d+$|^-\d*\.\d+$\<close>, over ASCII
  digits; \<^verbatim>\<open>$\<close> also matches before a final newline.
\<close>

definition negative_number :: "string \<Rightarrow> bool" where
  "negative_number s0 =
     (let s = (if s0 \<noteq> [] \<and> last s0 = CHR 0x0A then butlast s0 else s0) in
      case s of
        [] \<Rightarrow> False
      | c # r \<Rightarrow> c = CHR ''-'' \<and>
          ((r \<noteq> [] \<and> list_all digit r) \<or>
           (case dropWhile digit r of
              [] \<Rightarrow> False
            | d # f \<Rightarrow> d = CHR ''.'' \<and> f \<noteq> [] \<and> list_all digit f)))"

text \<open>\<^verbatim>\<open>s.partition('=')\<close> when \<^verbatim>\<open>s\<close> has an \<^verbatim>\<open>=\<close>.\<close>

definition split_eq :: "string \<Rightarrow> (string \<times> string) option" where
  "split_eq s =
     (if CHR ''='' \<in> set s
      then Some (takeWhile (\<lambda>c. c \<noteq> CHR ''='') s, tl (dropWhile (\<lambda>c. c \<noteq> CHR ''='') s))
      else None)"

text \<open>
  \<^verbatim>\<open>_get_option_tuples\<close>, called on strings of length at least two that start with \<^verbatim>\<open>-\<close>:
  a string starting with \<^verbatim>\<open>--\<close> stands for every option string it is a prefix of (up to
  its \<^verbatim>\<open>=\<close>); another one for the option string equal to its first two characters, the
  rest being the explicit argument, and for every option string it is a prefix of.
\<close>

definition get_option_tuples :: "parser \<Rightarrow> string \<Rightarrow> token_class list" where
  "get_option_tuples p s =
     (if s ! 1 = CHR ''-'' then
        (let (option_prefix, explicit_arg) =
               (case split_eq s of Some (a, b) \<Rightarrow> (a, Some (True, b)) | None \<Rightarrow> (s, None))
         in map (\<lambda>(os, act). Opt (Some act) os explicit_arg)
              (filter (\<lambda>(os, act). prefix option_prefix os) (option_string_actions p)))
      else
        concat (map (\<lambda>(os, act).
                  if os = take 2 s then [Opt (Some act) os (Some (False, drop 2 s))]
                  else if prefix s os then [Opt (Some act) os None]
                  else [])
               (option_string_actions p)))"

text \<open>\<^verbatim>\<open>_parse_optional\<close>; the parser has no option that looks like a negative number.\<close>

definition parse_optional :: "parser \<Rightarrow> string \<Rightarrow> parse_error + token_class" where
  "parse_optional p s =
     (if s = [] then Inr Arg
      else if hd s \<noteq> CHR ''-'' then Inr Arg
      else case map_of (option_string_actions p) s of
        Some act \<Rightarrow> Inr (Opt (Some act) s None)
      | None \<Rightarrow>
          if length s = 1 then Inr Arg
          else case (case split_eq s of
                       Some (os, ex) \<Rightarrow>
                         (case map_of (option_string_actions p) os of
                            Some act \<Rightarrow> Some (Opt (Some act) os (Some (True, ex)))
                          | None \<Rightarrow> None)
                     | None \<Rightarrow> None) of
            Some t \<Rightarrow> Inr t
          | None \<Rightarrow>
              (case get_option_tuples p s of
                 [] \<Rightarrow>
                   if negative_number s then Inr Arg
                   else if CHR '' '' \<in> set s then Inr Arg
                   else Inr (Opt None s None)
               | [t] \<Rightarrow> Inr t
               | _ \<Rightarrow> Inl (Ambiguous_option s)))"

type_synonym token = "string \<times> token_class"

text \<open>
  The first loop of \<^verbatim>\<open>_parse_known_args\<close>: every argument string is classified by this
  parser, those meant for a sub-command included; after the first \<^verbatim>\<open>--\<close> all are plain
  arguments.
\<close>

fun classify_all :: "parser \<Rightarrow> string list \<Rightarrow> parse_error + token list" where
  "classify_all p [] = Inr []"
| "classify_all p (s # ss) =
     (if s = ''--'' then Inr ((s, DashDash) # map (\<lambda>t. (t, Arg)) ss)
      else case parse_optional p s of
        Inl e \<Rightarrow> Inl e
      | Inr c \<Rightarrow> (case classify_all p ss of Inl e \<Rightarrow> Inl e | Inr cs \<Rightarrow> Inr ((s, c) # cs)))"

fun is_opt :: "token \<Rightarrow> bool" where
  "is_opt (s, Opt act os ex) = True"
| "is_opt (s, c) = False"

fun is_arg :: "token \<Rightarrow> bool" where
  "is_arg (s, Arg) = True"
| "is_arg (s, c) = False"

fun is_dash :: "token \<Rightarrow> bool" where
  "is_dash (s, DashDash) = True"
| "is_dash (s, c) = False"

subsection \<open>argparse: taking actions\<close>

record pstate =
  ns :: "string \<rightharpoonup> argval"
  seen_actions :: "string set"
  seen_non_default_actions :: "string set"
  extras :: "string list"
  positional_left :: bool

text \<open>\<^verbatim>\<open>action_conflicts\<close>: the other members of the groups an action belongs to.\<close>

definition action_conflicts :: "parser \<Rightarrow> string \<Rightarrow> string list" where
  "action_conflicts p d =
     concat (map (\<lambda>g. if d \<in> set g then filter (\<lambda>x. x \<noteq> d) g else []) (mutex_groups p))"

text \<open>
  \<^verbatim>\<open>take_action\<close>. argparse counts an action as present when its value \<^verbatim>\<open>is not\<close> its
  default, an identity test: a value read from the command line is a fresh object and
  always passes it, so \<open>non_default\<close> is false only when a positional with \<^verbatim>\<open>nargs="?"\<close>
  matched nothing and was handed its default.
\<close>

definition take_action ::
  "parser \<Rightarrow> pstate \<Rightarrow> string \<Rightarrow> bool \<Rightarrow> argval \<Rightarrow> parse_error + pstate" where
  "take_action p st d non_default v =
     (let st1 = st\<lparr>seen_actions := insert d (seen_actions st)\<rparr> in
      if non_default then
        (let st2 = st1\<lparr>seen_non_default_actions := insert d (seen_non_default_actions st1)\<rparr> in
         case filter (\<lambda>c. c \<in> seen_non_default_actions st2) (action_conflicts p d) of
           c # cs \<Rightarrow> Inl (Not_allowed_with d c)
         | [] \<Rightarrow> Inr (st2\<lparr>ns := (ns st2)(d \<mapsto> v)\<rparr>))
      else Inr (st1\<lparr>ns := (ns st1)(d \<mapsto> v)\<rparr>))"

text \<open>\<^verbatim>\<open>_get_values\<close> followed by the action's own \<^verbatim>\<open>__call__\<close>.\<close>

definition get_values :: "argument \<Rightarrow> string list \<Rightarrow> argval" where
  "get_values a args =
     (if action a = StoreTrue then Flag True
      else if args = [] \<and> nargs a = NargsOptional then NoneVal
      else if length args = 1 \<and> nargs a \<in> {NargsNone, NargsOptional} then Str (hd args)
      else Strs args)"

fun takes_no_args :: "opt_action \<Rightarrow> bool" where
  "takes_no_args HelpAction = True"
| "takes_no_args (ArgAction a) = (action a = StoreTrue)"

text \<open>
  \<^verbatim>\<open>_match_argument\<close> for an option, against the classes of the strings that follow it:
  the number of strings it takes, or no match.
\<close>

definition match_argument :: "opt_action \<Rightarrow> token list \<Rightarrow> nat option" where
  "match_argument act toks =
     (case act of
        HelpAction \<Rightarrow> Some 0
      | ArgAction a \<Rightarrow>
          if action a = StoreTrue then Some 0
          else case nargs a of
            NargsNone \<Rightarrow> (case toks of t # ts \<Rightarrow> if is_arg t then Some 1 else None | [] \<Rightarrow> None)
          | NargsOptional \<Rightarrow>
              (case toks of t # ts \<Rightarrow> if is_arg t then Some 1 else Some 0 | [] \<Rightarrow> Some 0)
          | NargsStar \<Rightarrow> Some (length (takeWhile is_arg toks)))"

text \<open>
  The inner loop of \<^verbatim>\<open>consume_optional\<close> for an option that came with an explicit
  argument \<open>e\<close>. An option that takes one value takes \<open>e\<close>. A single-dash option that takes
  none reads \<open>e\<close> as further single-letter options (\<^verbatim>\<open>-vr\<close> is \<^verbatim>\<open>-v -r\<close>). The result: the
  actions with their argument strings, the strings that go to the extras, and the action
  that still has to take its arguments from the strings that follow, if any.
\<close>

fun cluster ::
  "(string \<times> opt_action) list \<Rightarrow> opt_action \<Rightarrow> string \<Rightarrow> bool \<Rightarrow> string \<Rightarrow>
   parse_error + ((opt_action \<times> string list) list \<times> string list \<times> opt_action option)" where
  "cluster tbl act os sep [] =
     (if takes_no_args act then Inl (Ignored_explicit_argument [])
      else Inr ([(act, [[]])], [], None))"
| "cluster tbl act os sep (c # e) =
     (if takes_no_args act \<and> os ! 1 \<noteq> CHR ''-'' then
        (if sep \<or> c = CHR ''-'' then Inl (Ignored_explicit_argument (c # e))
         else case map_of tbl [CHR ''-'', c] of
           None \<Rightarrow> Inr ([(act, [])], [CHR ''-'' # c # e], None)
         | Some act' \<Rightarrow>
             (case e of
                [] \<Rightarrow> Inr ([(act, [])], [], Some act')
              | d # e' \<Rightarrow>
                  (case (if d = CHR ''='' then cluster tbl act' [CHR ''-'', c] True e'
                         else cluster tbl act' [CHR ''-'', c] False e) of
                     Inl err \<Rightarrow> Inl err
                   | Inr (tuples, ex, pending) \<Rightarrow> Inr ((act, []) # tuples, ex, pending))))
      else if \<not> takes_no_args act then Inr ([(act, [c # e])], [], None)
      else Inl (Ignored_explicit_argument (c # e)))"

text \<open>The help action prints the help and exits.\<close>

fun take_optional ::
  "parser \<Rightarrow> pstate \<Rightarrow> opt_action \<Rightarrow> string list \<Rightarrow> parse_error + pstate" where
  "take_optional p st HelpAction args = Inl Help_exit"
| "take_optional p st (ArgAction a) args = take_action p st (dest a) True (get_values a args)"

fun take_actions ::
  "parser \<Rightarrow> pstate \<Rightarrow> (opt_action \<times> string list) list \<Rightarrow> parse_error + pstate" where
  "take_actions p st [] = Inr st"
| "take_actions p st ((act, args) # tuples) =
     (case take_optional p st act args of
        Inl e \<Rightarrow> Inl e
      | Inr st' \<Rightarrow> take_actions p st' tuples)"

text \<open>
  \<^verbatim>\<open>consume_optional\<close> for an option string that names an action: the action tuples are
  collected first and taken afterwards, in order.
\<close>

definition consume_optional ::
  "parser \<Rightarrow> pstate \<Rightarrow> opt_action \<Rightarrow> string \<Rightarrow> (bool \<times> string) option \<Rightarrow> token list \<Rightarrow>
   parse_error + (pstate \<times> token list)" where
  "consume_optional p st act os ex rest =
     (case (case ex of
              None \<Rightarrow> Inr ([], [], Some act)
            | Some (sep, e) \<Rightarrow> cluster (option_string_actions p) act os sep e) of
        Inl err \<Rightarrow> Inl err
      | Inr (tuples, unknown, pending) \<Rightarrow>
          (case (case pending of
                   None \<Rightarrow> Inr (tuples, rest)
                 | Some act' \<Rightarrow>
                     (case match_argument act' rest of
                        None \<Rightarrow> Inl (Expected_one_argument os)
                      | Some k \<Rightarrow> Inr (tuples @ [(act', map fst (take k rest))], drop k rest))) of
             Inl err \<Rightarrow> Inl err
           | Inr (action_tuples, rest') \<Rightarrow>
               (case take_actions p (st\<lparr>extras := extras st @ unknown\<rparr>) action_tuples of
                  Inl err \<Rightarrow> Inl err
                | Inr st' \<Rightarrow> Inr (st', rest'))))"

subsection \<open>argparse: positionals\<close>

text \<open>
  The pattern of a positional that takes one string, \<^verbatim>\<open>(-*A-*)\<close>: the number of strings
  matched at the start of the list, or no match.
\<close>

definition match_one :: "token list \<Rightarrow> nat option" where
  "match_one toks =
     (let k = length (takeWhile is_dash toks) in
      case drop k toks of
        t # ts \<Rightarrow> if is_arg t then Some (k + 1 + length (takeWhile is_dash ts)) else None
      | [] \<Rightarrow> None)"

text \<open>The patterns \<^verbatim>\<open>(-*A-*)\<close>, \<^verbatim>\<open>(-*A?-*)\<close> and \<^verbatim>\<open>(-*[A-]*)\<close>.\<close>

definition match_positional :: "nargs_kind \<Rightarrow> token list \<Rightarrow> nat option" where
  "match_positional n toks =
     (case n of
        NargsNone \<Rightarrow> match_one toks
      | NargsOptional \<Rightarrow>
          (case match_one toks of
             Some k \<Rightarrow> Some k
           | None \<Rightarrow> Some (length (takeWhile is_dash toks)))
      | NargsStar \<Rightarrow> Some (length (takeWhile (\<lambda>t. \<not> is_opt t) toks)))"

text \<open>The pattern of the sub-command action, \<^verbatim>\<open>(-*A[-AO]*)\<close>: it takes all that is left.\<close>

definition match_parser :: "token list \<Rightarrow> nat option" where
  "match_parser toks =
     (case dropWhile is_dash toks of
        t # ts \<Rightarrow> if is_arg t then Some (length toks) else None
      | [] \<Rightarrow> None)"

text \<open>
  \<^verbatim>\<open>consume_positionals\<close>: the new state, the strings left, and the sub-command chosen with
  its argument strings. The sub-command's parser runs inside the action in argparse; as the
  action takes all the strings that are left, running it after the loop, as
  \<open>parse_known_args\<close> below does, gives the same result.
\<close>

definition consume_positionals ::
  "environ \<Rightarrow> parser \<Rightarrow> pstate \<Rightarrow> token list \<Rightarrow>
   parse_error + (pstate \<times> token list \<times> (string \<times> string list) option)" where
  "consume_positionals env p st toks =
     (if \<not> positional_left st then Inr (st, toks, None)
      else case positional p of
        NoPositional \<Rightarrow> Inr (st, toks, None)
      | Positional a \<Rightarrow>
          (case match_positional (nargs a) toks of
             None \<Rightarrow> Inr (st, toks, None)
           | Some n \<Rightarrow>
               (let args = remove1 ''--'' (map fst (take n toks));
                    use_default = (args = [] \<and>
                       (nargs a = NargsOptional \<or>
                        (nargs a = NargsStar \<and> eval_default env (arg_default a) \<noteq> NoneVal)));
                    v = (if use_default then eval_default env (arg_default a)
                         else get_values a args)
                in case take_action p st (dest a) (\<not> use_default) v of
                     Inl e \<Rightarrow> Inl e
                   | Inr st' \<Rightarrow> Inr (st'\<lparr>positional_left := False\<rparr>, drop n toks, None)))
      | Subparsers d req choices \<Rightarrow>
          (case match_parser toks of
             None \<Rightarrow> Inr (st, toks, None)
           | Some n \<Rightarrow>
               (let args = map fst toks; parser_name = hd args in
                if parser_name \<notin> fst ` set choices then Inl (Invalid_choice parser_name)
                else case take_action p st d True (Str parser_name) of
                       Inl e \<Rightarrow> Inl e
                     | Inr st' \<Rightarrow>
                         Inr (st'\<lparr>positional_left := False\<rparr>, [], Some (parser_name, tl args)))))"

text \<open>After the last option: the positional, then everything left goes to the extras.\<close>

definition finish ::
  "environ \<Rightarrow> parser \<Rightarrow> pstate \<Rightarrow> token list \<Rightarrow>
   parse_error + (pstate \<times> (string \<times> string list) option)" where
  "finish env p st toks =
     (case consume_positionals env p st toks of
        Inl e \<Rightarrow> Inl e
      | Inr (st', toks', sub) \<Rightarrow> Inr (st'\<lparr>extras := extras st' @ map fst toks'\<rparr>, sub))"

subsection \<open>argparse: the main loop\<close>

lemma consume_optional_length:
  "consume_optional p st act os ex rest = Inr (st', rest') \<Longrightarrow> length rest' \<le> length rest"
  by (auto simp: consume_optional_def split: option.splits sum.splits prod.splits)

text \<open>
  The loop of \<^verbatim>\<open>_parse_known_args\<close> that consumes positionals and options alternately
  while an option string is left, over the strings not yet consumed. An option string
  that names no action goes to the extras.
\<close>

function scan ::
  "environ \<Rightarrow> parser \<Rightarrow> pstate \<Rightarrow> token list \<Rightarrow>
   parse_error + (pstate \<times> (string \<times> string list) option)" where
  "scan env p st toks =
     (if \<not> list_ex is_opt toks then finish env p st toks
      else case toks of
        [] \<Rightarrow> finish env p st toks
      | (s, c) # rest \<Rightarrow>
          (case c of
             Opt act os ex \<Rightarrow>
               (case act of
                  None \<Rightarrow> scan env p (st\<lparr>extras := extras st @ [s]\<rparr>) rest
                | Some a \<Rightarrow>
                    (case consume_optional p st a os ex rest of
                       Inl err \<Rightarrow> Inl err
                     | Inr (st', rest') \<Rightarrow> scan env p st' rest'))
           | _ \<Rightarrow>
               (case consume_positionals env p st toks of
                  Inl err \<Rightarrow> Inl err
                | Inr (st', toks', sub) \<Rightarrow>
                    (case sub of
                       Some sb \<Rightarrow> Inr (st', Some sb)
                     | None \<Rightarrow>
                         if length toks' < length toks then scan env p st' toks'
                         else scan env p (st'\<lparr>extras := extras st' @ [s]\<rparr>) rest))))"
  by pat_completeness auto
termination
  by (relation "measure (\<lambda>(env, p, st, toks). length toks)")
     (auto dest: consume_optional_length)

declare scan.simps [simp del]

subsection \<open>parse_known_args and parse_args\<close>

definition actions_defaults :: "environ \<Rightarrow> parser \<Rightarrow> (string \<times> argval) list" where
  "actions_defaults env p =
     map (\<lambda>a. (dest a, eval_default env (arg_default a))) (optionals p) @
     (case positional p of
        NoPositional \<Rightarrow> []
      | Positional a \<Rightarrow> [(dest a, eval_default env (arg_default a))]
      | Subparsers d req choices \<Rightarrow> [(d, NoneVal)])"

text \<open>``Add any action defaults that aren't present.''\<close>

definition initial_namespace :: "environ \<Rightarrow> parser \<Rightarrow> (string \<rightharpoonup> argval)" where
  "initial_namespace env p =
     foldl (\<lambda>m (d, v). if m d = None then m(d \<mapsto> v) else m) Map.empty (actions_defaults env p)"

definition initial_state :: "environ \<Rightarrow> parser \<Rightarrow> pstate" where
  "initial_state env p =
     \<lparr>ns = initial_namespace env p, seen_actions = {}, seen_non_default_actions = {},
      extras = [], positional_left = True\<rparr>"

text \<open>The required actions that were not seen.\<close>

definition required_actions :: "parser \<Rightarrow> pstate \<Rightarrow> string list" where
  "required_actions p st =
     map dest (filter (\<lambda>a. required a \<and> dest a \<notin> seen_actions st) (optionals p)) @
     (case positional p of
        NoPositional \<Rightarrow> []
      | Positional a \<Rightarrow> if required a \<and> dest a \<notin> seen_actions st then [dest a] else []
      | Subparsers d req choices \<Rightarrow> if req \<and> d \<notin> seen_actions st then [d] else [])"

text \<open>
  \<^verbatim>\<open>parse_known_args\<close>: the namespace and the unrecognized strings, or the error with which
  the parser exits. The namespace of a sub-command is copied over the parser's own, and its
  unrecognized strings are appended.
\<close>

fun parse_known_args ::
  "parser \<Rightarrow> environ \<Rightarrow> string list \<Rightarrow>
   parse_error + ((string \<rightharpoonup> argval) \<times> string list)"
and parse_sub ::
  "positional \<Rightarrow> string \<Rightarrow> environ \<Rightarrow> string list \<Rightarrow>
   parse_error + ((string \<rightharpoonup> argval) \<times> string list)"
and parse_choice ::
  "(string \<times> parser) list \<Rightarrow> string \<Rightarrow> environ \<Rightarrow> string list \<Rightarrow>
   parse_error + ((string \<rightharpoonup> argval) \<times> string list)"
where
  "parse_known_args (Parser opts groups pos) env args =
     (let p = Parser opts groups pos in
      case classify_all p args of
        Inl e \<Rightarrow> Inl e
      | Inr toks \<Rightarrow>
          (case scan env p (initial_state env p) toks of
             Inl e \<Rightarrow> Inl e
           | Inr (st, sub) \<Rightarrow>
               (case (case sub of
                        None \<Rightarrow> Inr (ns st, extras st)
                      | Some (parser_name, arg_strings) \<Rightarrow>
                          (case parse_sub pos parser_name env arg_strings of
                             Inl e \<Rightarrow> Inl e
                           | Inr (subnamespace, unrecognized) \<Rightarrow>
                               Inr (ns st ++ subnamespace, extras st @ unrecognized))) of
                  Inl e \<Rightarrow> Inl e
                | Inr (namespace, ex) \<Rightarrow>
                    (case required_actions p st of
                       [] \<Rightarrow> Inr (namespace, ex)
                     | r # rs \<Rightarrow> Inl (Required_missing (r # rs))))))"
| "parse_sub NoPositional parser_name env args = Inl (Invalid_choice parser_name)"
| "parse_sub (Positional a) parser_name env args = Inl (Invalid_choice parser_name)"
| "parse_sub (Subparsers d req choices) parser_name env args =
     parse_choice choices parser_name env args"
| "parse_choice [] parser_name env args = Inl (Invalid_choice parser_name)"
| "parse_choice ((name, p) # choices) parser_name env args =
     (if name = parser_name then parse_known_args p env args
      else parse_choice choices parser_name env args)"

text \<open>\<^verbatim>\<open>parse_args\<close>: unrecognized strings are an error.\<close>

definition parse_args ::
  "parser \<Rightarrow> environ \<Rightarrow> string list \<Rightarrow> parse_error + (string \<rightharpoonup> argval)" where
  "parse_args p env args =
     (case parse_known_args p env args of
        Inl e \<Rightarrow> Inl e
      | Inr (namespace, argv) \<Rightarrow>
          if argv \<noteq> [] then Inl (Unrecognized_arguments argv) else Inr namespace)"

subsection \<open>What a command line supplies\<close>

text \<open>
  The \<^verbatim>\<open>dest\<close>s of the actions that one argument string stands for in a parser: the action
  of the option it is read as and, when it is a cluster of single-letter options, those of
  the letters that follow.
\<close>

fun action_dest :: "opt_action \<Rightarrow> string option" where
  "action_dest HelpAction = None"
| "action_dest (ArgAction a) = Some (dest a)"

definition class_actions :: "parser \<Rightarrow> token_class \<Rightarrow> opt_action list" where
  "class_actions p c =
     (case c of
        Opt (Some act) os ex \<Rightarrow>
          act # (case ex of
                   None \<Rightarrow> []
                 | Some (sep, e) \<Rightarrow>
                     (case cluster (option_string_actions p) act os sep e of
                        Inl err \<Rightarrow> []
                      | Inr (tuples, unknown, pending) \<Rightarrow>
                          map fst tuples @ (case pending of None \<Rightarrow> [] | Some a \<Rightarrow> [a])))
      | _ \<Rightarrow> [])"

definition token_actions :: "parser \<Rightarrow> string \<Rightarrow> opt_action list" where
  "token_actions p s =
     (case parse_optional p s of Inr c \<Rightarrow> class_actions p c | Inl e \<Rightarrow> [])"

text \<open>
  A command line supplies an argument of a parser when one of its strings before the first
  \<^verbatim>\<open>--\<close> stands for that argument's action.
\<close>

definition supplies :: "parser \<Rightarrow> string list \<Rightarrow> string \<Rightarrow> bool" where
  "supplies p args d =
     (\<exists>s \<in> set (takeWhile (\<lambda>s. s \<noteq> ''--'') args). Some d \<in> action_dest ` set (token_actions p s))"

text \<open>
  A default that is looked up in the environment: a call of \<^verbatim>\<open>env_or_val\<close> on an
  \<^verbatim>\<open>APIGENTOOLS_\<close> variable.
\<close>

definition default_from_environment :: "default_expr \<Rightarrow> bool" where
  "default_from_environment d =
     (case d of EnvOrVal name val \<Rightarrow> prefix ''APIGENTOOLS_'' name | _ \<Rightarrow> False)"

section \<open>Properties of the command line\<close>

lemmas parser_defs =
  get_cli_parser_def generate_parser_def templates_parser_def jar_parser_def local_parser_def
  git_parser_def validate_parser_def test_parser_def split_parser_def

subsection \<open>Where the defaults come from\<close>

text \<open>
  C9 as stated fails: \<^verbatim>\<open>--additional-stamp\<close> of \<^verbatim>\<open>generate\<close> has a default, the literal
  \<^verbatim>\<open>[]\<close>, and no environment variable is looked up for it (lines 59-64 of cli.py).
\<close>

theorem additional_stamp_default_not_from_environment:
  "([''generate''],
    (store [''--additional-stamp''] ''additional_stamp'' (Literal (Strs [])))
      \<lparr>nargs := NargsStar\<rparr>)
     \<in> set (all_arguments (get_cli_parser ''GIT''))
   \<and> arg_default ((store [''--additional-stamp''] ''additional_stamp'' (Literal (Strs [])))
         \<lparr>nargs := NargsStar\<rparr>) \<noteq> NoDefault
   \<and> \<not> default_from_environment
         (arg_default ((store [''--additional-stamp''] ''additional_stamp'' (Literal (Strs [])))
            \<lparr>nargs := NargsStar\<rparr>))"
  by (simp add: parser_defs default_from_environment_def store_def)

text \<open>
  C9, amended: every argument of the parser takes its default from \<^verbatim>\<open>env_or_val\<close> on an
  \<^verbatim>\<open>APIGENTOOLS_\<close> variable, whose value overrides the fallback when it is set, except four
  arguments whose default is a literal that no variable overrides (\<^verbatim>\<open>--additional-stamp\<close>
  and \<^verbatim>\<open>--builtin-templates\<close> of \<^verbatim>\<open>generate\<close>, \<^verbatim>\<open>--repo_url\<close> and \<^verbatim>\<open>git_committish\<close> of
  \<^verbatim>\<open>templates openapi-git\<close>) and three that have no default (\<^verbatim>\<open>--input-file\<close> of \<^verbatim>\<open>split\<close>,
  \<^verbatim>\<open>jar_path\<close>, \<^verbatim>\<open>local_path\<close>).
\<close>

theorem defaults_from_environment_or_literal:
  "(path, a) \<in> set (all_arguments (get_cli_parser g)) \<Longrightarrow>
     (case arg_default a of
        EnvOrVal name val \<Rightarrow>
          default_from_environment (arg_default a) \<and>
          (\<forall>env. eval_default env (arg_default a) =
                   (case env name of Some v \<Rightarrow> Str v | None \<Rightarrow> val))
      | Literal v \<Rightarrow>
          (path, dest a, v) \<in>
            {([''generate''], ''additional_stamp'', Strs []),
             ([''generate''], ''builtin_templates'', Flag False),
             ([''templates'', ''openapi-git''], ''repo_url'', Str g),
             ([''templates'', ''openapi-git''], ''git_committish'', Str ''master'')}
      | NoDefault \<Rightarrow>
          (path, dest a) \<in>
            {([''split''], ''input_file''),
             ([''templates'', ''openapi-jar''], ''jar_path''),
             ([''templates'', ''local-dir''], ''local_path'')})"
  by (auto simp: parser_defs store_def store_true_def positional_arg_def env_or_val_def
        default_from_environment_def)

theorem defaults_from_environment_or_literal_witness:
  "([''split''],
    store [''-v'', ''--api-version''] ''api_version''
      (EnvOrVal ''APIGENTOOLS_SPLIT_SPEC_VERSION'' (Str ''v1'')))
     \<in> set (all_arguments (get_cli_parser ''GIT''))
   \<and> default_from_environment (EnvOrVal ''APIGENTOOLS_SPLIT_SPEC_VERSION'' (Str ''v1''))
   \<and> eval_default [''APIGENTOOLS_SPLIT_SPEC_VERSION'' \<mapsto> ''v2'']
         (EnvOrVal ''APIGENTOOLS_SPLIT_SPEC_VERSION'' (Str ''v1'')) = Str ''v2''
   \<and> eval_default Map.empty
         (EnvOrVal ''APIGENTOOLS_SPLIT_SPEC_VERSION'' (Str ''v1'')) = Str ''v1''"
proof -
  let ?a = "store [''-v'', ''--api-version''] ''api_version''
              (EnvOrVal ''APIGENTOOLS_SPLIT_SPEC_VERSION'' (Str ''v1''))"
  have mem: "([''split''], ?a) \<in> set (all_arguments (get_cli_parser ''GIT''))"
    by (simp add: parser_defs)
  have d: "arg_default ?a = EnvOrVal ''APIGENTOOLS_SPLIT_SPEC_VERSION'' (Str ''v1'')"
    by (simp add: store_def)
  from defaults_from_environment_or_literal [OF mem]
  have "default_from_environment (arg_default ?a) \<and>
        (\<forall>env. eval_default env (arg_default ?a) =
                 (case env ''APIGENTOOLS_SPLIT_SPEC_VERSION'' of Some v \<Rightarrow> Str v | None \<Rightarrow> Str ''v1''))"
    by (simp add: d)
  then show ?thesis
    using mem by (simp add: d)
qed

subsection \<open>Argument strings and the actions they stand for\<close>

text \<open>
  The \<^verbatim>\<open>dest\<close>s that a classified argument string stands for, and the link between the
  strings of a command line and the classified strings the loop works on.
\<close>

definition class_dests :: "parser \<Rightarrow> token_class \<Rightarrow> string set" where
  "class_dests p c = {d. Some d \<in> action_dest ` set (class_actions p c)}"

lemma token_actions_class:
  "token_actions p s = (case parse_optional p s of Inr c \<Rightarrow> class_actions p c | Inl e \<Rightarrow> [])"
  by (simp add: token_actions_def)

lemma classify_all_fst: "classify_all p args = Inr toks \<Longrightarrow> map fst toks = args"
  by (induction args arbitrary: toks) (auto split: if_splits sum.splits simp: comp_def)


lemma class_dests_simps [simp]:
  "class_dests p Arg = {}" "class_dests p DashDash = {}" "class_dests p (Opt None os ex) = {}"
  by (simp_all add: class_dests_def class_actions_def)

lemma classify_all_supplies:
  "classify_all p args = Inr toks \<Longrightarrow>
   supplies p args d \<longleftrightarrow> (\<exists>t \<in> set toks. d \<in> class_dests p (snd t))"
proof (induction args arbitrary: toks)
  case Nil
  then show ?case by (simp add: supplies_def)
next
  case (Cons s ss)
  show ?case
  proof (cases "s = ''--''")
    case True
    with Cons.prems show ?thesis
      by (auto simp: supplies_def)
  next
    case False
    with Cons.prems obtain c cs where c: "parse_optional p s = Inr c"
      and cs: "classify_all p ss = Inr cs" and toks: "toks = (s, c) # cs"
      by (auto split: sum.splits)
    from Cons.IH [OF cs] have "supplies p ss d \<longleftrightarrow> (\<exists>t \<in> set cs. d \<in> class_dests p (snd t))" .
    moreover have "supplies p (s # ss) d \<longleftrightarrow> d \<in> class_dests p c \<or> supplies p ss d"
      using False c by (auto simp: supplies_def token_actions_class class_dests_def)
    ultimately show ?thesis using toks by auto
  qed
qed

subsection \<open>Taking actions: what changes, and when it fails\<close>

definition tuple_dests :: "(opt_action \<times> string list) list \<Rightarrow> string set" where
  "tuple_dests tuples = {d. Some d \<in> action_dest ` fst ` set tuples}"

lemma tuple_dests_simps [simp]:
  "tuple_dests [] = {}"
  "tuple_dests ((HelpAction, args) # tuples) = tuple_dests tuples"
  "tuple_dests ((ArgAction a, args) # tuples) = insert (dest a) (tuple_dests tuples)"
  "tuple_dests (xs @ ys) = tuple_dests xs \<union> tuple_dests ys"
  by (auto simp: tuple_dests_def)

definition compatible :: "parser \<Rightarrow> string set \<Rightarrow> bool" where
  "compatible p S = (\<forall>d \<in> S. \<forall>c \<in> set (action_conflicts p d). c \<notin> S)"

lemma action_conflicts_iff:
  "c \<in> set (action_conflicts p d) \<longleftrightarrow> (\<exists>g \<in> set (mutex_groups p). d \<in> set g \<and> c \<in> set g \<and> c \<noteq> d)"
  by (auto simp: action_conflicts_def)

lemma action_conflicts_sym:
  "c \<in> set (action_conflicts p d) \<Longrightarrow> d \<in> set (action_conflicts p c)"
  by (auto simp: action_conflicts_iff)

lemma action_conflicts_irrefl: "d \<notin> set (action_conflicts p d)"
  by (simp add: action_conflicts_iff)

lemma take_action_Inr:
  assumes "take_action p st d True v = Inr st'"
  shows "st' = st\<lparr>seen_actions := insert d (seen_actions st),
                   seen_non_default_actions := insert d (seen_non_default_actions st),
                   ns := (ns st)(d \<mapsto> v)\<rparr>"
    and "\<forall>c \<in> set (action_conflicts p d). c \<notin> seen_non_default_actions st"
proof -
  from assms have f: "filter (\<lambda>c. c \<in> insert d (seen_non_default_actions st)) (action_conflicts p d) = []"
    and st': "st' = st\<lparr>seen_actions := insert d (seen_actions st),
                   seen_non_default_actions := insert d (seen_non_default_actions st),
                   ns := (ns st)(d \<mapsto> v)\<rparr>"
    by (auto simp: take_action_def Let_def split: list.splits)
  show "st' = st\<lparr>seen_actions := insert d (seen_actions st),
                   seen_non_default_actions := insert d (seen_non_default_actions st),
                   ns := (ns st)(d \<mapsto> v)\<rparr>" by (rule st')
  from f show "\<forall>c \<in> set (action_conflicts p d). c \<notin> seen_non_default_actions st"
    by (auto simp: filter_empty_conv)
qed


lemma compatible_insert:
  "compatible p S \<Longrightarrow> \<forall>c \<in> set (action_conflicts p d). c \<notin> S \<Longrightarrow> compatible p (insert d S)"
  unfolding compatible_def
  using action_conflicts_sym action_conflicts_irrefl by (metis insert_iff)

lemma take_actions_Inr:
  "take_actions p st tuples = Inr st' \<Longrightarrow>
     seen_non_default_actions st' = seen_non_default_actions st \<union> tuple_dests tuples
   \<and> seen_actions st' = seen_actions st \<union> tuple_dests tuples
   \<and> (\<forall>d. d \<notin> tuple_dests tuples \<longrightarrow> ns st' d = ns st d)
   \<and> (compatible p (seen_non_default_actions st) \<longrightarrow> compatible p (seen_non_default_actions st'))
   \<and> HelpAction \<notin> fst ` set tuples"
proof (induction tuples arbitrary: st)
  case Nil
  then show ?case by simp
next
  case (Cons t tuples)
  obtain act args where t: "t = (act, args)" by (cases t)
  show ?case
  proof (cases act)
    case HelpAction
    with Cons.prems t show ?thesis by simp
  next
    case (ArgAction a)
    with Cons.prems t obtain st1 where
      st1: "take_action p st (dest a) True (get_values a args) = Inr st1"
      and rest: "take_actions p st1 tuples = Inr st'"
      by (auto split: sum.splits)
    note A = take_action_Inr [OF st1]
    from Cons.IH [OF rest] A(1) compatible_insert [OF _ A(2)]
    show ?thesis using t ArgAction by auto
  qed
qed


lemma cluster_first:
  assumes "cluster tbl act os sep e = Inr (tuples, unknown, pending)"
  shows "\<exists>args ts. tuples = (act, args) # ts"
proof (cases e)
  case Nil
  with assms show ?thesis by (auto split: if_splits)
next
  case (Cons c e')
  from assms show ?thesis unfolding Cons cluster.simps(2)
    by (auto split: if_splits option.splits list.splits sum.splits simp del: cluster.simps)
qed


lemma take_takeWhile_is_arg: "t \<in> set (take (length (takeWhile P xs)) xs) \<Longrightarrow> P t"
  using takeWhile_eq_take [of P xs] set_takeWhileD by metis

lemma match_argument_is_arg:
  "match_argument act rest = Some k \<Longrightarrow> \<forall>t \<in> set (take k rest). is_arg t"
  by (auto simp: match_argument_def split: opt_action.splits if_splits nargs_kind.splits list.splits
           dest: take_takeWhile_is_arg)

lemma class_dests_Opt_None:
  "class_dests p (Opt (Some act) os None) = tuple_dests [(act, args)]"
  by (cases act) (auto simp: class_dests_def class_actions_def tuple_dests_def)

lemma class_dests_Opt_Some:
  assumes "cluster (option_string_actions p) act os sep e = Inr (tuples, unknown, pending)"
  shows "class_dests p (Opt (Some act) os (Some (sep, e))) =
         tuple_dests tuples \<union> (case pending of None \<Rightarrow> {} | Some a \<Rightarrow> tuple_dests [(a, args)])"
proof -
  from cluster_first [OF assms] obtain as ts where "tuples = (act, as) # ts" by blast
  then show ?thesis using assms
    by (auto simp: class_dests_def class_actions_def tuple_dests_def split: option.splits)
qed

lemma consume_optional_Inr:
  assumes "consume_optional p st act os ex rest = Inr (st', rest')"
  shows "\<exists>tuples u k. take_actions p (st\<lparr>extras := extras st @ u\<rparr>) tuples = Inr st'
           \<and> tuple_dests tuples = class_dests p (Opt (Some act) os ex)
           \<and> rest' = drop k rest \<and> (\<forall>t \<in> set (take k rest). is_arg t)"
proof (cases ex)
  case None
  with assms obtain k where k: "match_argument act rest = Some k"
    and t: "take_actions p (st\<lparr>extras := extras st @ []\<rparr>) [(act, map fst (take k rest))] = Inr st'"
    and r: "rest' = drop k rest"
    by (auto simp: consume_optional_def split: option.splits sum.splits)
  from match_argument_is_arg [OF k] t r class_dests_Opt_None [of p act os "map fst (take k rest)"] None
  show ?thesis by blast
next
  case (Some se)
  obtain sep e where se: "se = (sep, e)" by (cases se)
  with Some assms obtain tuples unknown pending where
    c: "cluster (option_string_actions p) act os sep e = Inr (tuples, unknown, pending)"
    by (auto simp: consume_optional_def split: sum.splits)
  show ?thesis
  proof (cases pending)
    case None
    with Some se c assms have "take_actions p (st\<lparr>extras := extras st @ unknown\<rparr>) tuples = Inr st'"
      and "rest' = drop 0 rest"
      by (auto simp: consume_optional_def split: sum.splits)
    moreover have "tuple_dests tuples = class_dests p (Opt (Some act) os ex)"
      using class_dests_Opt_Some [OF c] None Some se by simp
    ultimately show ?thesis by (metis empty_iff list.set(1) take_0)
  next
    case (Some act')
    with \<open>ex = Some se\<close> se c assms obtain k where k: "match_argument act' rest = Some k"
      and t: "take_actions p (st\<lparr>extras := extras st @ unknown\<rparr>)
                (tuples @ [(act', map fst (take k rest))]) = Inr st'"
      and r: "rest' = drop k rest"
      by (auto simp: consume_optional_def split: option.splits sum.splits)
    have "tuple_dests (tuples @ [(act', map fst (take k rest))]) = class_dests p (Opt (Some act) os ex)"
      using class_dests_Opt_Some [OF c, of "map fst (take k rest)"] Some \<open>ex = Some se\<close> se by simp
    with match_argument_is_arg [OF k] t r show ?thesis by blast
  qed
qed


subsection \<open>The loop of a parser without positionals\<close>

text \<open>
  The sub-commands \<^verbatim>\<open>generate\<close>, \<^verbatim>\<open>validate\<close>, \<^verbatim>\<open>test\<close> and \<^verbatim>\<open>split\<close> take options only.
  For such a parser the loop records exactly the actions that the argument strings stand
  for, changes the namespace only at their \<^verbatim>\<open>dest\<close>s, and fails with ``not allowed with
  argument'' only for two of them that share a group.
\<close>

definition supplied :: "parser \<Rightarrow> token list \<Rightarrow> string set" where
  "supplied p toks = (\<Union>t \<in> set toks. class_dests p (snd t))"

lemma supplied_simps [simp]:
  "supplied p [] = {}"
  "supplied p ((s, c) # toks) = class_dests p c \<union> supplied p toks"
  by (auto simp: supplied_def)

lemma is_arg_class_dests: "is_arg t \<Longrightarrow> class_dests p (snd t) = {}"
  by (cases t rule: is_arg.cases) auto

lemma supplied_drop_args:
  "\<forall>t \<in> set (take k toks). is_arg t \<Longrightarrow> supplied p (drop k toks) = supplied p toks"
proof -
  assume a: "\<forall>t \<in> set (take k toks). is_arg t"
  have "supplied p toks = supplied p (take k toks) \<union> supplied p (drop k toks)"
    unfolding supplied_def by (metis UN_Un append_take_drop_id set_append)
  moreover have "supplied p (take k toks) = {}"
    using a by (auto simp: supplied_def is_arg_class_dests)
  ultimately show ?thesis by simp
qed

lemma consume_positionals_leaf:
  "positional p = NoPositional \<Longrightarrow> consume_positionals env p st toks = Inr (st, toks, None)"
  by (simp add: consume_positionals_def)

lemma finish_leaf:
  "positional p = NoPositional \<Longrightarrow>
   finish env p st toks = Inr (st\<lparr>extras := extras st @ map fst toks\<rparr>, None)"
  by (simp add: finish_def consume_positionals_leaf)

lemma scan_leaf_unfold:
  assumes "positional p = NoPositional"
  shows "scan env p st toks =
    (case toks of
       [] \<Rightarrow> Inr (st, None)
     | (s, c) # rest \<Rightarrow>
         (case c of
            Opt act os ex \<Rightarrow>
              (case act of
                 None \<Rightarrow> scan env p (st\<lparr>extras := extras st @ [s]\<rparr>) rest
               | Some a \<Rightarrow>
                   (case consume_optional p st a os ex rest of
                      Inl err \<Rightarrow> Inl err
                    | Inr (st', rest') \<Rightarrow> scan env p st' rest'))
          | _ \<Rightarrow> scan env p (st\<lparr>extras := extras st @ [s]\<rparr>) rest))"
proof (cases toks)
  case Nil
  then show ?thesis by (simp add: scan.simps [of env p st "[]"] finish_leaf [OF assms])
next
  case (Cons t rest)
  obtain s c where t: "t = (s, c)" by (cases t)
  show ?thesis
  proof (cases "list_ex is_opt toks")
    case True
    then show ?thesis
      unfolding scan.simps [of env p st toks] using Cons t
      by (simp add: consume_positionals_leaf [OF assms]
               split: token_class.splits option.splits)
  next
    case False
    then have nc: "\<not> is_opt (s, c)" and nr: "\<not> list_ex is_opt rest" using Cons t by auto
    have "scan env p st toks = Inr (st\<lparr>extras := extras st @ s # map fst rest\<rparr>, None)"
      unfolding scan.simps [of env p st toks] using False Cons t by (simp add: finish_leaf [OF assms])
    moreover have "scan env p (st\<lparr>extras := extras st @ [s]\<rparr>) rest
          = Inr (st\<lparr>extras := extras st @ s # map fst rest\<rparr>, None)"
      unfolding scan.simps [of env p _ rest] using nr by (simp add: finish_leaf [OF assms])
    ultimately show ?thesis using Cons t nc by (cases c) auto
  qed
qed

lemma scan_leaf_Inr:
  assumes leaf: "positional p = NoPositional"
  shows "scan env p st toks = Inr (st', sub) \<Longrightarrow>
     sub = None
   \<and> seen_non_default_actions st' = seen_non_default_actions st \<union> supplied p toks
   \<and> seen_actions st' = seen_actions st \<union> supplied p toks
   \<and> (\<forall>d. d \<notin> supplied p toks \<longrightarrow> ns st' d = ns st d)
   \<and> (compatible p (seen_non_default_actions st) \<longrightarrow> compatible p (seen_non_default_actions st'))"
proof (induction toks arbitrary: st rule: length_induct)
  case (1 toks)
  note IH = "1.IH" [rule_format]
  note prem = "1.prems" [unfolded scan_leaf_unfold [OF leaf, of env st toks]]
  show ?case
  proof (cases toks)
    case Nil
    with prem show ?thesis by simp
  next
    case (Cons t rest)
    obtain s c where t: "t = (s, c)" by (cases t)
    have skip: ?thesis
      if sc: "scan env p (st\<lparr>extras := extras st @ [s]\<rparr>) rest = Inr (st', sub)"
        and cd: "class_dests p c = {}"
    proof -
      have "length rest < length toks" using Cons by simp
      from IH [OF this sc] show ?thesis using Cons t cd by auto
    qed
    show ?thesis
    proof (cases c)
      case Arg
      with prem Cons t have "scan env p (st\<lparr>extras := extras st @ [s]\<rparr>) rest = Inr (st', sub)"
        by simp
      then show ?thesis using Arg by (intro skip) simp_all
    next
      case DashDash
      with prem Cons t have "scan env p (st\<lparr>extras := extras st @ [s]\<rparr>) rest = Inr (st', sub)"
        by simp
      then show ?thesis using DashDash by (intro skip) simp_all
    next
      case (Opt act os ex)
      show ?thesis
      proof (cases act)
        case None
        with prem Cons t Opt have "scan env p (st\<lparr>extras := extras st @ [s]\<rparr>) rest = Inr (st', sub)"
          by simp
        then show ?thesis using Opt None by (intro skip) simp_all
      next
        case (Some a)
        with prem Cons t Opt obtain st1 rest1 where
          co: "consume_optional p st a os ex rest = Inr (st1, rest1)"
          and sc: "scan env p st1 rest1 = Inr (st', sub)"
          by (auto split: sum.splits)
        from consume_optional_Inr [OF co] obtain tuples u k where
          ta: "take_actions p (st\<lparr>extras := extras st @ u\<rparr>) tuples = Inr st1"
          and td: "tuple_dests tuples = class_dests p c"
          and r1: "rest1 = drop k rest" and args: "\<forall>t \<in> set (take k rest). is_arg t"
          using Opt Some by blast
        have len: "length rest1 < length toks" using r1 Cons by simp
        have sup: "supplied p rest1 = supplied p rest"
          using supplied_drop_args [OF args] r1 by simp
        from take_actions_Inr [OF ta] td
        have 1: "seen_non_default_actions st1 = seen_non_default_actions st \<union> class_dests p c"
          and 2: "\<forall>d. d \<notin> class_dests p c \<longrightarrow> ns st1 d = ns st d"
          and 4: "seen_actions st1 = seen_actions st \<union> class_dests p c"
          and 3: "compatible p (seen_non_default_actions st) \<longrightarrow> compatible p (seen_non_default_actions st1)"
          by auto
        from IH [OF len sc] 1 2 3 4 sup show ?thesis using Cons t by auto
      qed
    qed
  qed
qed


lemma supplies_supplied:
  "classify_all p args = Inr toks \<Longrightarrow> supplies p args d \<longleftrightarrow> d \<in> supplied p toks"
  by (simp add: classify_all_supplies supplied_def)

lemma compatible_empty: "compatible p {}"
  by (simp add: compatible_def)

lemma parse_known_args_leaf:
  "parse_known_args (Parser opts groups NoPositional) env args =
     (case classify_all (Parser opts groups NoPositional) args of
        Inl e \<Rightarrow> Inl e
      | Inr toks \<Rightarrow>
          (case scan env (Parser opts groups NoPositional)
                  (initial_state env (Parser opts groups NoPositional)) toks of
             Inl e \<Rightarrow> Inl e
           | Inr (st, sub) \<Rightarrow>
               (case required_actions (Parser opts groups NoPositional) st of
                  [] \<Rightarrow> Inr (ns st, extras st)
                | r # rs \<Rightarrow> Inl (Required_missing (r # rs)))))"
proof -
  have "sub = None" if "scan env (Parser opts groups NoPositional) st0 toks = Inr (st, sub)"
    for st0 toks st sub
    using scan_leaf_Inr [OF _ that] by simp
  then show ?thesis
    by (auto simp: Let_def split: sum.splits option.splits list.splits prod.splits)
qed

lemma leaf_parse_Inr:
  assumes p: "p = Parser opts groups NoPositional"
    and ok: "parse_known_args p env args = Inr (nsp, ex)"
  shows "(\<forall>d. \<not> supplies p args d \<longrightarrow> nsp d = initial_namespace env p d)"
    and "compatible p {d. supplies p args d}"
    and "\<forall>a \<in> set opts. required a \<longrightarrow> supplies p args (dest a)"
proof -
  from ok obtain toks st sub where
    c: "classify_all p args = Inr toks"
    and s: "scan env p (initial_state env p) toks = Inr (st, sub)"
    and r: "required_actions p st = []"
    and n: "nsp = ns st"
    unfolding p parse_known_args_leaf
    by (auto split: sum.splits list.splits)
  have leaf: "positional p = NoPositional" by (simp add: p)
  note S = scan_leaf_Inr [OF leaf s]
  have sup: "supplied p toks = {d. supplies p args d}"
    using supplies_supplied [OF c] by auto
  from S sup n show "\<forall>d. \<not> supplies p args d \<longrightarrow> nsp d = initial_namespace env p d"
    by (auto simp: initial_state_def)
  from S sup compatible_empty [of p] show "compatible p {d. supplies p args d}"
    by (auto simp: initial_state_def)
  from S have "seen_actions st = supplied p toks" by (simp add: initial_state_def)
  with r sup show "\<forall>a \<in> set opts. required a \<longrightarrow> supplies p args (dest a)"
    by (auto simp: required_actions_def p filter_empty_conv)
qed


lemma parse_optional_plain:
  "s = [] \<or> hd s \<noteq> CHR ''-'' \<Longrightarrow> parse_optional p s = Inr Arg"
  by (auto simp: parse_optional_def)

lemma take_action_no_groups:
  "mutex_groups p = [] \<Longrightarrow>
   take_action p st d True v =
     Inr (st\<lparr>seen_actions := insert d (seen_actions st),
             seen_non_default_actions := insert d (seen_non_default_actions st),
             ns := (ns st)(d \<mapsto> v)\<rparr>)"
  by (simp add: take_action_def action_conflicts_def Let_def)

lemma scan_subcommand:
  assumes pos: "positional p = Subparsers d req choices"
    and grp: "mutex_groups p = []"
    and name: "name \<in> fst ` set choices"
    and st: "positional_left st"
  shows "scan env p st ((name, Arg) # cs) =
     Inr (st\<lparr>seen_actions := insert d (seen_actions st),
             seen_non_default_actions := insert d (seen_non_default_actions st),
             ns := (ns st)(d \<mapsto> Str name),
             positional_left := False\<rparr>, Some (name, map fst cs))"
proof -
  have cp: "consume_positionals env p st ((name, Arg) # cs) =
     Inr (st\<lparr>seen_actions := insert d (seen_actions st),
             seen_non_default_actions := insert d (seen_non_default_actions st),
             ns := (ns st)(d \<mapsto> Str name),
             positional_left := False\<rparr>, [], Some (name, map fst cs))"
    using pos name st
    by (simp add: consume_positionals_def match_parser_def take_action_no_groups [OF grp] Let_def)
  show ?thesis
    unfolding scan.simps [of env p st "(name, Arg) # cs"]
    by (simp add: cp finish_def)
qed

lemma parse_known_args_subcommand:
  assumes plain: "name = [] \<or> hd name \<noteq> CHR ''-''"
    and name: "name \<in> fst ` set choices"
    and nreq: "\<forall>a \<in> set opts. \<not> required a"
  shows "parse_known_args (Parser opts [] (Subparsers d req choices)) env (name # args) =
     (case classify_all (Parser opts [] (Subparsers d req choices)) args of
        Inl e \<Rightarrow> Inl e
      | Inr cs \<Rightarrow>
          (case parse_choice choices name env args of
             Inl e \<Rightarrow> Inl e
           | Inr (subnamespace, unrecognized) \<Rightarrow>
               Inr ((initial_namespace env (Parser opts [] (Subparsers d req choices)))
                       (d \<mapsto> Str name) ++ subnamespace, unrecognized)))"
proof -
  let ?p = "Parser opts [] (Subparsers d req choices)"
  have nd: "name \<noteq> ''--''" using plain by auto
  have cl: "classify_all ?p (name # args) =
      (case classify_all ?p args of Inl e \<Rightarrow> Inl e | Inr cs \<Rightarrow> Inr ((name, Arg) # cs))"
    using nd parse_optional_plain [OF plain, of ?p] by simp
  show ?thesis
  proof (cases "classify_all ?p args")
    case (Inl e)
    then show ?thesis unfolding parse_known_args.simps Let_def cl by simp
  next
    case (Inr cs)
    have fs: "map fst cs = args" by (rule classify_all_fst [OF Inr])
    have sc: "scan env ?p (initial_state env ?p) ((name, Arg) # cs) =
       Inr ((initial_state env ?p)\<lparr>seen_actions := insert d (seen_actions (initial_state env ?p)),
             seen_non_default_actions := insert d (seen_non_default_actions (initial_state env ?p)),
             ns := (ns (initial_state env ?p))(d \<mapsto> Str name),
             positional_left := False\<rparr>, Some (name, map fst cs))"
      by (rule scan_subcommand [OF _ _ name]) (simp_all add: initial_state_def)
    have rq: "required_actions ?p
        ((initial_state env ?p)\<lparr>seen_actions := insert d (seen_actions (initial_state env ?p)),
             seen_non_default_actions := insert d (seen_non_default_actions (initial_state env ?p)),
             ns := (ns (initial_state env ?p))(d \<mapsto> Str name),
             positional_left := False\<rparr>) = []"
      using nreq by (simp add: required_actions_def filter_empty_conv)
    show ?thesis unfolding parse_known_args.simps Let_def cl
      by (simp add: Inr sc fs rq split: sum.splits prod.splits) (simp add: initial_state_def)
  qed
qed

subsection \<open>The sub-commands of get_cli_parser\<close>

lemma parse_args_subcommand:
  assumes plain: "name = [] \<or> hd name \<noteq> CHR ''-''"
    and ch: "parse_choice [(''generate'', generate_parser), (''templates'', templates_parser g),
      (''validate'', validate_parser), (''test'', test_parser), (''split'', split_parser)] name env args
        = parse_known_args sub env args"
    and mem: "name \<in> {''generate'', ''templates'', ''validate'', ''test'', ''split''}"
  shows "parse_args (get_cli_parser g) env (name # args) =
     (case classify_all (get_cli_parser g) args of
        Inl e \<Rightarrow> Inl e
      | Inr cs \<Rightarrow>
          (case parse_known_args sub env args of
             Inl e \<Rightarrow> Inl e
           | Inr (subnamespace, unrecognized) \<Rightarrow>
               if unrecognized \<noteq> [] then Inl (Unrecognized_arguments unrecognized)
               else Inr ((initial_namespace env (get_cli_parser g))(''action'' \<mapsto> Str name)
                           ++ subnamespace)))"
proof -
  define opts where "opts = optionals (get_cli_parser g)"
  have P: "get_cli_parser g = Parser opts [] (Subparsers ''action'' True
     [(''generate'', generate_parser), (''templates'', templates_parser g),
      (''validate'', validate_parser), (''test'', test_parser), (''split'', split_parser)])"
    unfolding opts_def get_cli_parser_def by simp
  have nreq: "\<forall>a \<in> set opts. \<not> required a"
    unfolding opts_def get_cli_parser_def by (simp add: store_def store_true_def)
  have mem': "name \<in> fst ` set [(''generate'', generate_parser), (''templates'', templates_parser g),
      (''validate'', validate_parser), (''test'', test_parser), (''split'', split_parser)]"
    using mem by auto
  note E = parse_known_args_subcommand [OF plain mem' nreq, of "''action''" True env args]
  show ?thesis
    unfolding parse_args_def P E ch
    by (simp split: sum.splits prod.splits)
qed

lemma parse_args_generate:
  "parse_args (get_cli_parser g) env (''generate'' # args) =
     (case classify_all (get_cli_parser g) args of
        Inl e \<Rightarrow> Inl e
      | Inr cs \<Rightarrow>
          (case parse_known_args generate_parser env args of
             Inl e \<Rightarrow> Inl e
           | Inr (subnamespace, unrecognized) \<Rightarrow>
               if unrecognized \<noteq> [] then Inl (Unrecognized_arguments unrecognized)
               else Inr ((initial_namespace env (get_cli_parser g))(''action'' \<mapsto> Str ''generate'')
                           ++ subnamespace)))"
  by (rule parse_args_subcommand) simp_all

lemma parse_args_validate:
  "parse_args (get_cli_parser g) env (''validate'' # args) =
     (case classify_all (get_cli_parser g) args of
        Inl e \<Rightarrow> Inl e
      | Inr cs \<Rightarrow>
          (case parse_known_args validate_parser env args of
             Inl e \<Rightarrow> Inl e
           | Inr (subnamespace, unrecognized) \<Rightarrow>
               if unrecognized \<noteq> [] then Inl (Unrecognized_arguments unrecognized)
               else Inr ((initial_namespace env (get_cli_parser g))(''action'' \<mapsto> Str ''validate'')
                           ++ subnamespace)))"
  by (rule parse_args_subcommand) simp_all

lemma parse_args_split:
  "parse_args (get_cli_parser g) env (''split'' # args) =
     (case classify_all (get_cli_parser g) args of
        Inl e \<Rightarrow> Inl e
      | Inr cs \<Rightarrow>
          (case parse_known_args split_parser env args of
             Inl e \<Rightarrow> Inl e
           | Inr (subnamespace, unrecognized) \<Rightarrow>
               if unrecognized \<noteq> [] then Inl (Unrecognized_arguments unrecognized)
               else Inr ((initial_namespace env (get_cli_parser g))(''action'' \<mapsto> Str ''split'')
                           ++ subnamespace)))"
  by (rule parse_args_subcommand) simp_all



lemma Inr_map_add: "m2 d = Some v \<Longrightarrow> (m1 ++ m2) d = Some v"
  by (simp add: map_add_def)

lemma generate_full_spec_file_default:
  "initial_namespace env generate_parser ''full_spec_file'' =
     Some (env_or_val env ''APIGENTOOLS_FULL_SPEC_FILE'' (Str ''full_spec.yaml''))"
  by (simp add: initial_namespace_def actions_defaults_def generate_parser_def store_def store_true_def)

lemma validate_full_spec_file_default:
  "initial_namespace env validate_parser ''full_spec_file'' =
     Some (env_or_val env ''APIGENTOOLS_FULL_SPEC_FILE'' (Str ''full_spec.yaml''))"
  by (simp add: initial_namespace_def actions_defaults_def validate_parser_def store_def store_true_def)

lemma split_api_version_default:
  "initial_namespace env split_parser ''api_version'' =
     Some (env_or_val env ''APIGENTOOLS_SPLIT_SPEC_VERSION'' (Str ''v1''))"
  by (simp add: initial_namespace_def actions_defaults_def split_parser_def store_def store_true_def)

lemma subcommand_default:
  assumes p: "sub = Parser opts groups NoPositional"
    and pa: "parse_args (get_cli_parser g) env (name # args) =
     (case classify_all (get_cli_parser g) args of
        Inl e \<Rightarrow> Inl e
      | Inr cs \<Rightarrow>
          (case parse_known_args sub env args of
             Inl e \<Rightarrow> Inl e
           | Inr (subnamespace, unrecognized) \<Rightarrow>
               if unrecognized \<noteq> [] then Inl (Unrecognized_arguments unrecognized)
               else Inr ((initial_namespace env (get_cli_parser g))(''action'' \<mapsto> Str name)
                           ++ subnamespace)))"
    and ok: "parse_args (get_cli_parser g) env (name # args) = Inr nsp"
    and ns: "\<not> supplies sub args d"
    and dflt: "initial_namespace env sub d = Some v"
  shows "nsp d = Some v"
proof -
  from ok obtain subns where s: "parse_known_args sub env args = Inr (subns, [])"
    and n: "nsp = (initial_namespace env (get_cli_parser g))(''action'' \<mapsto> Str name) ++ subns"
    unfolding pa by (auto split: sum.splits if_splits)
  from leaf_parse_Inr(1) [OF p s] ns dflt have "subns d = Some v" by simp
  then show ?thesis unfolding n by (rule Inr_map_add)
qed

lemmas argparse_eval =
  parse_optional_def option_string_actions_def get_option_tuples_def split_eq_def
  negative_number_def digit_def store_def store_true_def

lemma classify_option_value:
  assumes "v = [] \<or> hd v \<noteq> CHR ''-''" and "os \<noteq> ''--''"
    and "parse_optional p os = Inr c"
  shows "classify_all p [os, v] = Inr [(os, c), (v, Arg)]"
  using assms parse_optional_plain [of v p] by auto

lemma leaf_store_option:
  assumes p: "p = Parser opts groups NoPositional"
    and po: "parse_optional p os = Inr (Opt (Some (ArgAction a)) os None)"
    and a: "action a = Store" "nargs a = NargsNone" "action_conflicts p (dest a) = []"
    and rq: "\<forall>b \<in> set opts. required b \<longrightarrow> dest b = dest a"
    and v: "v = [] \<or> hd v \<noteq> CHR ''-''" and os: "os \<noteq> ''--''"
  shows "parse_known_args p env [os, v] = Inr ((initial_namespace env p)(dest a \<mapsto> Str v), [])"
proof -
  have leaf: "positional p = NoPositional" by (simp add: p)
  have co: "consume_optional p st (ArgAction a) os None [(v, Arg)]
     = Inr (st\<lparr>seen_actions := insert (dest a) (seen_actions st),
               seen_non_default_actions := insert (dest a) (seen_non_default_actions st),
               ns := (ns st)(dest a \<mapsto> Str v)\<rparr>, [])" for st
    using a by (simp add: consume_optional_def match_argument_def take_action_def get_values_def Let_def)
  have sc: "scan env p st [(os, Opt (Some (ArgAction a)) os None), (v, Arg)]
     = Inr (st\<lparr>seen_actions := insert (dest a) (seen_actions st),
               seen_non_default_actions := insert (dest a) (seen_non_default_actions st),
               ns := (ns st)(dest a \<mapsto> Str v)\<rparr>, None)" for st
    by (simp add: scan_leaf_unfold [OF leaf] co)
  have rq': "required_actions p (st\<lparr>seen_actions := insert (dest a) (seen_actions st),
               seen_non_default_actions := insert (dest a) (seen_non_default_actions st),
               ns := (ns st)(dest a \<mapsto> Str v)\<rparr>) = []" for st
    using rq by (auto simp: required_actions_def p filter_empty_conv)
  have cl: "classify_all (Parser opts groups NoPositional) [os, v]
      = Inr [(os, Opt (Some (ArgAction a)) os None), (v, Arg)]"
    using classify_option_value [OF v os po] unfolding p .
  show ?thesis
    unfolding p parse_known_args_leaf cl
    using sc [of "initial_state env p"] rq' [of "initial_state env p"]
    unfolding p
    by (simp add: initial_state_def)
qed

lemma top_classify_option_value:
  assumes "v = [] \<or> hd v \<noteq> CHR ''-''"
    and "parse_optional (get_cli_parser g) os = Inr c" and "os \<noteq> ''--''"
  shows "classify_all (get_cli_parser g) [os, v] = Inr [(os, c), (v, Arg)]"
  using assms by (intro classify_option_value)

lemma top_parse_optional_f:
  "parse_optional (get_cli_parser g) ''-f'' = Inr (Opt None ''-f'' None)"
  by (simp add: get_cli_parser_def argparse_eval)

lemma generate_parse_optional_f:
  "parse_optional generate_parser ''-f'' =
     Inr (Opt (Some (ArgAction (store [''-f'', ''--full-spec-file''] ''full_spec_file''
        (EnvOrVal ''APIGENTOOLS_FULL_SPEC_FILE'' (Str ''full_spec.yaml''))))) ''-f'' None)"
  by (simp add: generate_parser_def argparse_eval)

lemma validate_parse_optional_f:
  "parse_optional validate_parser ''-f'' =
     Inr (Opt (Some (ArgAction (store [''-f'', ''--full-spec-file''] ''full_spec_file''
        (EnvOrVal ''APIGENTOOLS_FULL_SPEC_FILE'' (Str ''full_spec.yaml''))))) ''-f'' None)"
  by (simp add: validate_parser_def argparse_eval)

lemma generate_f:
  assumes "v = [] \<or> hd v \<noteq> CHR ''-''"
  shows "parse_known_args generate_parser env [''-f'', v] =
     Inr ((initial_namespace env generate_parser)(''full_spec_file'' \<mapsto> Str v), [])"
proof -
  obtain opts groups where gp: "generate_parser = Parser opts groups NoPositional"
    and rq: "\<forall>b \<in> set opts. \<not> required b"
    by (simp add: generate_parser_def store_def store_true_def)
  have "action_conflicts generate_parser ''full_spec_file'' = []"
    by (simp add: action_conflicts_def generate_parser_def)
  from leaf_store_option [OF gp generate_parse_optional_f _ _ _ _ assms, of env] this rq
  show ?thesis by (simp add: store_def)
qed

lemma validate_f:
  assumes "v = [] \<or> hd v \<noteq> CHR ''-''"
  shows "parse_known_args validate_parser env [''-f'', v] =
     Inr ((initial_namespace env validate_parser)(''full_spec_file'' \<mapsto> Str v), [])"
proof -
  obtain opts groups where gp: "validate_parser = Parser opts groups NoPositional"
    and rq: "\<forall>b \<in> set opts. \<not> required b"
    by (simp add: validate_parser_def store_def store_true_def)
  have "action_conflicts validate_parser ''full_spec_file'' = []"
    by (simp add: action_conflicts_def validate_parser_def)
  from leaf_store_option [OF gp validate_parse_optional_f _ _ _ _ assms, of env] this rq
  show ?thesis by (simp add: store_def)
qed

lemma split_parser_leaf:
  "\<exists>opts groups. split_parser = Parser opts groups NoPositional \<and>
     (\<forall>a \<in> set opts. required a \<longleftrightarrow> dest a = ''input_file'')
     \<and> ''input_file'' \<in> dest ` set opts"
  by (simp add: split_parser_def store_def)

subsection \<open>The template options of generate\<close>



lemma both_template_options_rejected:
  "map_sum id (\<lambda>ns. ())
     (parse_args (get_cli_parser ''GIT'') Map.empty [''generate'', ''-t'', ''x'', ''--builtin-templates''])
     = Inl (Not_allowed_with ''builtin_templates'' ''template_dir'')"
  by code_simp

lemma one_template_option_accepted:
  "map_sum id (\<lambda>ns. (ns ''template_dir'', ns ''builtin_templates''))
     (parse_args (get_cli_parser ''GIT'') Map.empty [''generate'', ''--builtin-templates''])
     = Inr (Some (Str ''templates''), Some (Flag True))"
  by code_simp

subsection \<open>The full spec file\<close>

text \<open>
  C8: the full spec file is configurable and defaults to \<^verbatim>\<open>full_spec.yaml\<close>, for \<^verbatim>\<open>generate\<close>
  and for \<^verbatim>\<open>validate\<close> (lines 49-53 and 150-154 of cli.py). When the command line does not
  supply \<^verbatim>\<open>-f/--full-spec-file\<close> and parsing succeeds, \<^verbatim>\<open>full_spec_file\<close> is
  \<^verbatim>\<open>env_or_val("APIGENTOOLS_FULL_SPEC_FILE", "full_spec.yaml")\<close>, hence \<^verbatim>\<open>full_spec.yaml\<close> when
  the variable is not set; and \<^verbatim>\<open>-f V\<close> sets it to \<^verbatim>\<open>V\<close>, for every \<^verbatim>\<open>V\<close> that does not start
  with \<^verbatim>\<open>-\<close>.
\<close>

theorem full_spec_file_configurable_with_default:
  assumes "name = ''generate'' \<and> sub = generate_parser \<or> name = ''validate'' \<and> sub = validate_parser"
  shows "(\<not> supplies sub args ''full_spec_file'' \<and>
          parse_args (get_cli_parser g) env (name # args) = Inr namespace
          \<longrightarrow> namespace ''full_spec_file'' =
                 Some (env_or_val env ''APIGENTOOLS_FULL_SPEC_FILE'' (Str ''full_spec.yaml''))
              \<and> (env ''APIGENTOOLS_FULL_SPEC_FILE'' = None
                   \<longrightarrow> namespace ''full_spec_file'' = Some (Str ''full_spec.yaml'')))
       \<and> (v = [] \<or> hd v \<noteq> CHR ''-''
          \<longrightarrow> map_sum id (\<lambda>ns. ns ''full_spec_file'')
                 (parse_args (get_cli_parser g) env [name, ''-f'', v]) = Inr (Some (Str v)))"
proof (intro conjI impI)
  assume h: "\<not> supplies sub args ''full_spec_file'' \<and>
          parse_args (get_cli_parser g) env (name # args) = Inr namespace"
  show d: "namespace ''full_spec_file'' =
           Some (env_or_val env ''APIGENTOOLS_FULL_SPEC_FILE'' (Str ''full_spec.yaml''))"
    using assms
  proof
    assume a: "name = ''generate'' \<and> sub = generate_parser"
    show ?thesis
      using subcommand_default [OF _ parse_args_generate, of opts groups g env args namespace
          "''full_spec_file''" for opts groups]
        h a generate_full_spec_file_default [of env]
      by (auto simp: generate_parser_def)
  next
    assume a: "name = ''validate'' \<and> sub = validate_parser"
    show ?thesis
      using subcommand_default [OF _ parse_args_validate, of opts groups g env args namespace
          "''full_spec_file''" for opts groups]
        h a validate_full_spec_file_default [of env]
      by (auto simp: validate_parser_def)
  qed
  assume "env ''APIGENTOOLS_FULL_SPEC_FILE'' = None"
  with d show "namespace ''full_spec_file'' = Some (Str ''full_spec.yaml'')"
    by (simp add: env_or_val_def)
next
  assume v: "v = [] \<or> hd v \<noteq> CHR ''-''"
  have c: "classify_all (get_cli_parser g) [''-f'', v] = Inr [(''-f'', Opt None ''-f'' None), (v, Arg)]"
    by (rule top_classify_option_value [OF v top_parse_optional_f]) simp
  from assms show "map_sum id (\<lambda>ns. ns ''full_spec_file'')
         (parse_args (get_cli_parser g) env [name, ''-f'', v]) = Inr (Some (Str v))"
  proof
    assume a: "name = ''generate'' \<and> sub = generate_parser"
    have "map_sum id (\<lambda>ns. ns ''full_spec_file'')
         (parse_args (get_cli_parser g) env [''generate'', ''-f'', v]) = Inr (Some (Str v))"
      unfolding parse_args_generate c by (simp add: generate_f [OF v] map_add_def)
    with a show ?thesis by simp
  next
    assume a: "name = ''validate'' \<and> sub = validate_parser"
    have "map_sum id (\<lambda>ns. ns ''full_spec_file'')
         (parse_args (get_cli_parser g) env [''validate'', ''-f'', v]) = Inr (Some (Str v))"
      unfolding parse_args_validate c by (simp add: validate_f [OF v] map_add_def)
    with a show ?thesis by simp
  qed
qed

theorem full_spec_file_configurable_with_default_witness:
  "\<not> supplies generate_parser [''-s'', ''specs''] ''full_spec_file''
   \<and> map_sum id (\<lambda>ns. ns ''full_spec_file'')
       (parse_args (get_cli_parser ''GIT'') Map.empty [''generate'', ''-s'', ''specs''])
       = Inr (Some (Str ''full_spec.yaml''))
   \<and> map_sum id (\<lambda>ns. ns ''full_spec_file'')
       (parse_args (get_cli_parser ''GIT'') Map.empty [''validate'', ''-f'', ''other.yaml''])
       = Inr (Some (Str ''other.yaml''))"
proof -
  have s: "\<not> supplies generate_parser [''-s'', ''specs''] ''full_spec_file''"
    by code_simp
  have "\<not> isl (parse_args (get_cli_parser ''GIT'') Map.empty [''generate'', ''-s'', ''specs''])"
    by code_simp
  then obtain namespace where
    p: "parse_args (get_cli_parser ''GIT'') Map.empty [''generate'', ''-s'', ''specs''] = Inr namespace"
    by (cases "parse_args (get_cli_parser ''GIT'') Map.empty [''generate'', ''-s'', ''specs'']") auto
  from full_spec_file_configurable_with_default
         [of "''generate''" generate_parser "[''-s'', ''specs'']" "''GIT''" Map.empty namespace "''x''"]
       s p
  have 1: "namespace ''full_spec_file'' = Some (Str ''full_spec.yaml'')" by (simp add: env_or_val_def)
  from full_spec_file_configurable_with_default
         [of "''validate''" validate_parser "[]" "''GIT''" Map.empty namespace "''other.yaml''"]
  have 2: "map_sum id (\<lambda>ns. ns ''full_spec_file'')
       (parse_args (get_cli_parser ''GIT'') Map.empty [''validate'', ''-f'', ''other.yaml''])
       = Inr (Some (Str ''other.yaml''))" by simp
  show ?thesis using s p 1 2 by simp
qed

subsection \<open>The API version of split\<close>

text \<open>
  C7 as stated fails: \<^verbatim>\<open>split -i in.yaml\<close> gives no version and parsing succeeds, with
  \<^verbatim>\<open>api_version\<close> set to \<^verbatim>\<open>v1\<close> (lines 186-190 of cli.py give \<^verbatim>\<open>--api-version\<close> a default
  and do not make it required).
\<close>

theorem split_without_version_proceeds:
  "\<not> supplies split_parser [''-i'', ''in.yaml''] ''api_version''
   \<and> map_sum id (\<lambda>ns. (ns ''action'', ns ''input_file'', ns ''api_version''))
       (parse_args (get_cli_parser ''GIT'') Map.empty [''split'', ''-i'', ''in.yaml''])
     = Inr (Some (Str ''split''), Some (Str ''in.yaml''), Some (Str ''v1''))"
  by code_simp

text \<open>
  C7, amended: the version is an optional input of \<^verbatim>\<open>split\<close>. Whenever parsing of
  \<^verbatim>\<open>split ARGS\<close> succeeds, \<^verbatim>\<open>ARGS\<close> supplies \<^verbatim>\<open>-i/--input-file\<close>, the one required argument;
  and when \<^verbatim>\<open>ARGS\<close> does not supply \<^verbatim>\<open>-v/--api-version\<close>, \<^verbatim>\<open>api_version\<close> is the value of
  \<^verbatim>\<open>APIGENTOOLS_SPLIT_SPEC_VERSION\<close> when that is set and \<^verbatim>\<open>v1\<close> otherwise.
\<close>

theorem split_api_version_optional:
  assumes "parse_args (get_cli_parser g) env (''split'' # args) = Inr namespace"
  shows "supplies split_parser args ''input_file''
       \<and> (\<not> supplies split_parser args ''api_version'' \<longrightarrow>
            namespace ''api_version'' =
              Some (env_or_val env ''APIGENTOOLS_SPLIT_SPEC_VERSION'' (Str ''v1'')))"
proof -
  obtain opts groups where sp: "split_parser = Parser opts groups NoPositional"
    and rq: "\<forall>a \<in> set opts. required a \<longleftrightarrow> dest a = ''input_file''"
    and inp: "''input_file'' \<in> dest ` set opts"
    using split_parser_leaf by blast
  from assms obtain subns where s: "parse_known_args split_parser env args = Inr (subns, [])"
    unfolding parse_args_split by (auto split: sum.splits if_splits)
  from leaf_parse_Inr(3) [OF sp s] rq inp have "supplies split_parser args ''input_file''"
    by auto
  moreover have "namespace ''api_version'' =
              Some (env_or_val env ''APIGENTOOLS_SPLIT_SPEC_VERSION'' (Str ''v1''))"
    if "\<not> supplies split_parser args ''api_version''"
    by (rule subcommand_default [OF sp parse_args_split assms that split_api_version_default])
  ultimately show ?thesis by simp
qed

theorem split_api_version_optional_witness:
  "supplies split_parser [''-i'', ''in.yaml''] ''input_file''
   \<and> \<not> supplies split_parser [''-i'', ''in.yaml''] ''api_version''
   \<and> map_sum id (\<lambda>ns. ns ''api_version'')
       (parse_args (get_cli_parser ''GIT'') [''APIGENTOOLS_SPLIT_SPEC_VERSION'' \<mapsto> ''v2'']
          [''split'', ''-i'', ''in.yaml''])
     = Inr (Some (Str ''v2''))"
proof -
  have s: "\<not> supplies split_parser [''-i'', ''in.yaml''] ''api_version''"
    by code_simp
  have "\<not> isl (parse_args (get_cli_parser ''GIT'') [''APIGENTOOLS_SPLIT_SPEC_VERSION'' \<mapsto> ''v2'']
          [''split'', ''-i'', ''in.yaml''])"
    by code_simp
  then obtain namespace where
    p: "parse_args (get_cli_parser ''GIT'') [''APIGENTOOLS_SPLIT_SPEC_VERSION'' \<mapsto> ''v2'']
          [''split'', ''-i'', ''in.yaml''] = Inr namespace"
    by (cases "parse_args (get_cli_parser ''GIT'') [''APIGENTOOLS_SPLIT_SPEC_VERSION'' \<mapsto> ''v2'']
          [''split'', ''-i'', ''in.yaml'']") auto
  from split_api_version_optional [OF p] s
  have "supplies split_parser [''-i'', ''in.yaml''] ''input_file''"
    and "namespace ''api_version'' =
           Some (env_or_val [''APIGENTOOLS_SPLIT_SPEC_VERSION'' \<mapsto> ''v2'']
                   ''APIGENTOOLS_SPLIT_SPEC_VERSION'' (Str ''v1''))"
    by simp_all
  then show ?thesis using s p by (simp add: env_or_val_def)
qed

section \<open>The Merger of the spec aggregation engine\<close>

text \<open>
  The commands that \<^verbatim>\<open>cli\<close> dispatches to (\<^verbatim>\<open>apigentools.commands\<close>) are not among the
  sources. The specification describes the engine behind \<^verbatim>\<open>generate\<close>; its Merger
  (section 4.3) is given as an algorithm and is modelled here from those words. The
  Reference Resolver that the Merger calls at the end is described by its purpose only, so
  it is a parameter of the model.
\<close>

subsection \<open>Data model\<close>

text \<open>
  Modelled from the spec: the document tree of section 9, ``a tagged-variant document tree
  (Node = Scalar | Sequence | Mapping)''. No source file declares it.
\<close>

datatype node = Scalar string | Sequence "node list" | Mapping "(string \<times> node) list"

type_synonym section_name = string
type_synonym key = string

text \<open>
  Modelled from the spec: the Fragment of section 3, ``a named, typed document (e.g., path
  fragment, schema fragment, tag fragment) belonging to one API version; attributes:
  version tag, logical name, raw structured content, source location''. No source file
  declares it. The type of a fragment is the section its keys belong to; its content is
  a mapping, written as the list of its top-level keys with their nodes.
\<close>

record fragment =
  version :: string
  name :: string
  category :: section_name
  content :: "(key \<times> node) list"
  location :: string

text \<open>
  Modelled from the spec: the two error kinds of section 7 that a merge can end with.
  \<open>CollisionError\<close> carries the section, the key, and the fragments that contributed the
  key first and second; \<open>DanglingReferenceError\<close> the pointer and its source fragment.
\<close>

datatype error =
  CollisionError section_name key string string
| DanglingReferenceError string string

text \<open>
  Modelled from the spec: the FullSpec of section 3, ``a single structured document per
  version, the union of all fragments'', as the mapping from a section and a key to the
  content under that key. While it is built, each key keeps the name of the fragment that
  contributed it, which the errors name. A mapping has no order of its own: what is written
  out is a function of it. The top-level metadata (info, servers, security) is not part of
  the algorithm of section 4.3 and is left out.
\<close>

type_synonym table = "(section_name \<times> key) \<rightharpoonup> (string \<times> node)"
type_synonym fullspec = "(section_name \<times> key) \<rightharpoonup> node"

subsection \<open>merge\<close>

text \<open>
  Modelled from the spec: the Merger of section 4.3, which no source file holds.
  ``Accumulate each fragment's top-level keys into the FullSpec's corresponding section;
  before insertion, check the destination key is absent; if present, raise CollisionError
  identifying both contributing fragments and the key.''
\<close>

fun insert_keys :: "fragment \<Rightarrow> (key \<times> node) list \<Rightarrow> table \<Rightarrow> error + table" where
  "insert_keys f [] t = Inr t"
| "insert_keys f ((k, v) # kvs) t =
     (case t (category f, k) of
        Some (g, w) \<Rightarrow> Inl (CollisionError (category f) k g (name f))
      | None \<Rightarrow> insert_keys f kvs (t((category f, k) \<mapsto> (name f, v))))"

text \<open>Modelled from the spec: the same, over the ordered fragments of one version.\<close>

fun accumulate :: "fragment list \<Rightarrow> table \<Rightarrow> error + table" where
  "accumulate [] t = Inr t"
| "accumulate (f # fs) t =
     (case insert_keys f (content f) t of
        Inl e \<Rightarrow> Inl e
      | Inr t' \<Rightarrow> accumulate fs t')"

text \<open>
  Modelled from the spec: ``After all fragments are merged, invoke the Reference Resolver
  in qualify mode. Output: one FullSpec.'' The resolver is the parameter
  \<open>resolve_qualify\<close>: any function from the merged table to a FullSpec or an error.
\<close>

definition merge :: "(table \<Rightarrow> error + fullspec) \<Rightarrow> fragment list \<Rightarrow> error + fullspec" where
  "merge resolve_qualify fs =
     (case accumulate fs Map.empty of
        Inl e \<Rightarrow> Inl e
      | Inr t \<Rightarrow> resolve_qualify t)"

text \<open>
  The entries that a list of fragments contributes, in order: the destination of each
  key, with the contributing fragment and the content.
\<close>

definition entry_of :: "fragment \<Rightarrow> key \<times> node \<Rightarrow> (section_name \<times> key) \<times> (string \<times> node)" where
  "entry_of f kv = ((category f, fst kv), (name f, snd kv))"

definition fragment_entries :: "fragment \<Rightarrow> ((section_name \<times> key) \<times> (string \<times> node)) list" where
  "fragment_entries f = map (entry_of f) (content f)"

definition entries :: "fragment list \<Rightarrow> ((section_name \<times> key) \<times> (string \<times> node)) list" where
  "entries fs = concat (map fragment_entries fs)"

lemma fst_entry_of [simp]: "fst (entry_of f kv) = (category f, fst kv)"
  by (simp add: entry_of_def)

lemma entry_keys_distinct:
  "distinct (map fst (map (entry_of f) kvs)) \<longleftrightarrow> distinct (map fst kvs)"
proof -
  have "map fst (map (entry_of f) kvs) = map (Pair (category f)) (map fst kvs)"
    by (simp add: comp_def)
  moreover have "inj (Pair (category f))" by (simp add: inj_on_def)
  ultimately show ?thesis by (simp add: distinct_map inj_on_def del: map_map)
qed

lemma entry_key_mem:
  "(c, k) \<in> fst ` set (map (entry_of f) kvs) \<longleftrightarrow> c = category f \<and> k \<in> fst ` set kvs"
  by (auto simp: image_iff entry_of_def)

lemma insert_keys_Inr_iff:
  "insert_keys f kvs t = Inr t' \<longleftrightarrow>
     distinct (map fst kvs) \<and> (\<forall>k \<in> fst ` set kvs. t (category f, k) = None) \<and>
     t' = t ++ map_of (map (entry_of f) kvs)"
proof (induction kvs arbitrary: t)
  case Nil
  then show ?case by auto
next
  case (Cons kv kvs)
  obtain k v where kv: "kv = (k, v)" by (cases kv)
  let ?x = "(category f, k)" and ?y = "(name f, v)"
  let ?m = "map_of (map (entry_of f) kvs)"
  show ?case
  proof (cases "t ?x")
    case (Some gw)
    then show ?thesis using kv by (auto split: prod.splits)
  next
    case None
    have step: "insert_keys f (kv # kvs) t = insert_keys f kvs (t(?x \<mapsto> ?y))"
      using None kv by simp
    have IH: "insert_keys f kvs (t(?x \<mapsto> ?y)) = Inr t' \<longleftrightarrow>
       distinct (map fst kvs) \<and> (\<forall>k' \<in> fst ` set kvs. (t(?x \<mapsto> ?y)) (category f, k') = None) \<and>
       t' = t(?x \<mapsto> ?y) ++ ?m"
      by (rule Cons.IH)
    have none_iff: "(\<forall>k' \<in> fst ` set kvs. (t(?x \<mapsto> ?y)) (category f, k') = None) \<longleftrightarrow>
       k \<notin> fst ` set kvs \<and> (\<forall>k' \<in> fst ` set kvs. t (category f, k') = None)"
      by auto
    define M where "M = map_of (map (entry_of f) (kv # kvs))"
    have upd: "t(?x \<mapsto> ?y) ++ ?m = t ++ M"
      if "k \<notin> fst ` set kvs"
    proof -
      from that have "?x \<notin> dom ?m"
        using entry_key_mem [of "category f" k f kvs] by (simp add: dom_map_of_conv_image_fst)
      then have "t(?x \<mapsto> ?y) ++ ?m = (t ++ ?m)(?x \<mapsto> ?y)" by (rule map_add_upd_left)
      also have "\<dots> = t ++ ?m(?x \<mapsto> ?y)" by simp
      also have "?m(?x \<mapsto> ?y) = map_of (map (entry_of f) (kv # kvs))"
        by (simp add: kv entry_of_def)
      finally show ?thesis unfolding M_def .
    qed
    have d: "distinct (map fst (kv # kvs)) \<longleftrightarrow> k \<notin> fst ` set kvs \<and> distinct (map fst kvs)"
      using kv by simp
    have n: "(\<forall>k' \<in> fst ` set (kv # kvs). t (category f, k') = None) \<longleftrightarrow>
        (\<forall>k' \<in> fst ` set kvs. t (category f, k') = None)"
      using kv None by simp
    show ?thesis
      unfolding step IH none_iff d n M_def [symmetric] using upd by auto
  qed
qed

lemma distinct_append_keys:
  "distinct (map fst (xs @ ys)) \<longleftrightarrow>
     distinct (map fst xs) \<and> distinct (map fst ys) \<and> fst ` set xs \<inter> fst ` set ys = {}"
  by auto

lemma accumulate_Inr_iff:
  "accumulate fs t = Inr t' \<longleftrightarrow>
     distinct (map fst (entries fs)) \<and> (\<forall>x \<in> fst ` set (entries fs). t x = None) \<and>
     t' = t ++ map_of (entries fs)"
proof (induction fs arbitrary: t)
  case Nil
  then show ?case by (auto simp: entries_def)
next
  case (Cons f fs)
  let ?a = "fragment_entries f" and ?b = "entries fs"
  have e: "entries (f # fs) = ?a @ ?b" by (simp add: entries_def)
  have ka: "fst ` set ?a = Pair (category f) ` fst ` set (content f)"
    by (force simp: fragment_entries_def image_iff entry_of_def)
  have first: "insert_keys f (content f) t = Inr t1 \<longleftrightarrow>
      distinct (map fst ?a) \<and> (\<forall>x \<in> fst ` set ?a. t x = None) \<and> t1 = t ++ map_of ?a" for t1
    unfolding insert_keys_Inr_iff fragment_entries_def entry_keys_distinct ka [unfolded fragment_entries_def]
    by auto
  have comm: "(t ++ map_of ?a) ++ map_of ?b = t ++ map_of (?a @ ?b)"
    if "fst ` set ?a \<inter> fst ` set ?b = {}"
  proof -
    from that have "dom (map_of ?a) \<inter> dom (map_of ?b) = {}"
      by (simp add: dom_map_of_conv_image_fst)
    then have "map_of ?a ++ map_of ?b = map_of ?b ++ map_of ?a" by (rule map_add_comm)
    then show ?thesis unfolding map_of_append by (metis map_add_assoc)
  qed
  have none: "(\<forall>x \<in> fst ` set ?b. (t ++ map_of ?a) x = None) \<longleftrightarrow>
     (\<forall>x \<in> fst ` set ?b. t x = None) \<and> fst ` set ?a \<inter> fst ` set ?b = {}"
    by (simp add: map_of_eq_None_iff) (force simp: image_iff)
  show ?case
  proof (cases "insert_keys f (content f) t")
    case (Inl err)
    then have nn: "\<not> (distinct (map fst ?a) \<and> (\<forall>x \<in> fst ` set ?a. t x = None))"
      using first [of "t ++ map_of ?a"] by auto
    have "\<not> (distinct (map fst (?a @ ?b)) \<and> (\<forall>x \<in> fst ` set (?a @ ?b). t x = None))"
    proof
      assume h: "distinct (map fst (?a @ ?b)) \<and> (\<forall>x \<in> fst ` set (?a @ ?b). t x = None)"
      then have "distinct (map fst ?a)" by simp
      moreover from h have "\<forall>x \<in> fst ` set ?a. t x = None" by (simp add: image_Un)
      ultimately show False using nn by blast
    qed
    with Inl show ?thesis unfolding e by simp
  next
    case (Inr t1)
    with first [of t1] have a: "distinct (map fst ?a)" "\<forall>x \<in> fst ` set ?a. t x = None"
      and t1: "t1 = t ++ map_of ?a" by auto
    have "accumulate (f # fs) t = accumulate fs t1" using Inr by simp
    also have "\<dots> = Inr t' \<longleftrightarrow>
       distinct (map fst ?b) \<and> (\<forall>x \<in> fst ` set ?b. t1 x = None) \<and> t' = t1 ++ map_of ?b"
      by (rule Cons.IH)
    finally show ?thesis
      unfolding e distinct_append_keys t1 none using a comm by (auto simp: image_Un)
  qed
qed

subsection \<open>Example fragments\<close>

text \<open>
  Two schema fragments that both define \<^verbatim>\<open>Foo\<close>, a tag fragment, and a resolver that
  leaves every reference as it is.
\<close>

definition pets :: fragment where
  "pets = \<lparr>version = ''v1'', name = ''pets'', category = ''schemas'',
            content = [(''Foo'', Scalar ''object''), (''Pet'', Scalar ''object'')],
            location = ''spec/v1/schemas/pets.yaml''\<rparr>"

definition users :: fragment where
  "users = \<lparr>version = ''v1'', name = ''users'', category = ''schemas'',
             content = [(''User'', Scalar ''object''), (''Foo'', Scalar ''string'')],
             location = ''spec/v1/schemas/users.yaml''\<rparr>"

definition tags :: fragment where
  "tags = \<lparr>version = ''v1'', name = ''tags'', category = ''tags'',
            content = [(''Foo'', Scalar ''a tag'')],
            location = ''spec/v1/tags/tags.yaml''\<rparr>"

definition keep_references :: "table \<Rightarrow> error + fullspec" where
  "keep_references t = Inr (map_option snd \<circ> t)"

section \<open>Properties of the Merger\<close>

subsection \<open>When accumulation succeeds\<close>



lemma insert_keys_Inl:
  "insert_keys f kvs t = Inl e \<Longrightarrow> distinct (map fst kvs) \<Longrightarrow>
   \<exists>k a w. e = CollisionError (category f) k a (name f) \<and> k \<in> fst ` set kvs
          \<and> t (category f, k) = Some (a, w)"
proof (induction kvs arbitrary: t)
  case Nil
  then show ?case by simp
next
  case (Cons kv kvs)
  obtain k v where kv: "kv = (k, v)" by (cases kv)
  show ?case
  proof (cases "t (category f, k)")
    case (Some gw)
    obtain g w where "gw = (g, w)" by (cases gw)
    with Some Cons.prems kv show ?thesis by auto
  next
    case None
    with Cons.prems kv have "insert_keys f kvs (t((category f, k) \<mapsto> (name f, v))) = Inl e"
      and "distinct (map fst kvs)" and nk: "k \<notin> fst ` set kvs"
      by auto
    from Cons.IH [OF this(1,2)] obtain k' a w where
      "e = CollisionError (category f) k' a (name f)" "k' \<in> fst ` set kvs"
      "(t((category f, k) \<mapsto> (name f, v))) (category f, k') = Some (a, w)"
      by blast
    with nk kv show ?thesis by (auto split: if_splits)
  qed
qed

lemma accumulate_Inl:
  "accumulate fs t = Inl e \<Longrightarrow> \<forall>f \<in> set fs. distinct (map fst (content f)) \<Longrightarrow>
   \<exists>pre f post k a w t1. fs = pre @ f # post \<and> accumulate pre t = Inr t1
      \<and> e = CollisionError (category f) k a (name f) \<and> k \<in> fst ` set (content f)
      \<and> t1 (category f, k) = Some (a, w)"
proof (induction fs arbitrary: t)
  case Nil
  then show ?case by simp
next
  case (Cons f fs)
  show ?case
  proof (cases "insert_keys f (content f) t")
    case (Inl e')
    with Cons.prems have "e' = e" by simp
    with insert_keys_Inl [OF Inl] Cons.prems(2) obtain k a w where
      "e = CollisionError (category f) k a (name f)" "k \<in> fst ` set (content f)"
      "t (category f, k) = Some (a, w)" by auto
    then have "f # fs = [] @ f # fs \<and> accumulate [] t = Inr t
      \<and> e = CollisionError (category f) k a (name f) \<and> k \<in> fst ` set (content f)
      \<and> t (category f, k) = Some (a, w)" by simp
    then show ?thesis by blast
  next
    case (Inr t0)
    with Cons.prems have "accumulate fs t0 = Inl e" "\<forall>f \<in> set fs. distinct (map fst (content f))"
      by auto
    from Cons.IH [OF this] obtain pre g post k a w t1 where
      "fs = pre @ g # post" "accumulate pre t0 = Inr t1"
      "e = CollisionError (category g) k a (name g)" "k \<in> fst ` set (content g)"
      "t1 (category g, k) = Some (a, w)" by blast
    with Inr have "f # fs = (f # pre) @ g # post \<and> accumulate (f # pre) t = Inr t1
      \<and> e = CollisionError (category g) k a (name g) \<and> k \<in> fst ` set (content g)
      \<and> t1 (category g, k) = Some (a, w)" by simp
    then show ?thesis by blast
  qed
qed

lemma entries_mem:
  "((s, k), (a, w)) \<in> set (entries fs) \<longleftrightarrow>
     (\<exists>f \<in> set fs. category f = s \<and> name f = a \<and> (k, w) \<in> set (content f))"
  by (force simp: entries_def fragment_entries_def entry_of_def image_iff)

subsection \<open>Collision detection\<close>

text \<open>
  C2: whenever two fragments of the set define the same key in the same section, the merge
  raises a \<open>CollisionError\<close>, whatever the resolver, so no second definition is written over
  the first; and the error names a key and two fragments of the set, the first before the
  second, that both define that key in the section named. Fragments are well-formed: the
  keys of one fragment's content are distinct, as those of a mapping are.
\<close>

theorem collision_detected:
  assumes wf: "\<forall>f \<in> set fs. distinct (map fst (content f))"
    and fs: "fs = pre @ f1 # mid @ f2 # post"
    and c: "category f1 = category f2"
    and k1: "k \<in> fst ` set (content f1)" and k2: "k \<in> fst ` set (content f2)"
  shows "\<exists>s k' g1 g2 pre' mid' post'.
           merge resolve_qualify fs = Inl (CollisionError s k' (name g1) (name g2))
         \<and> fs = pre' @ g1 # mid' @ g2 # post'
         \<and> category g1 = s \<and> category g2 = s
         \<and> k' \<in> fst ` set (content g1) \<and> k' \<in> fst ` set (content g2)"
proof -
  have nd: "\<not> distinct (map fst (entries fs))"
  proof -
    have "(category f1, k) \<in> fst ` set (fragment_entries f1)"
      using k1 by (force simp: fragment_entries_def image_iff entry_of_def)
    moreover have "(category f1, k) \<in> fst ` set (fragment_entries f2)"
      using k2 c by (force simp: fragment_entries_def image_iff entry_of_def)
    ultimately show ?thesis
      unfolding fs entries_def by (auto simp: image_iff)
  qed
  then obtain e where e: "accumulate fs Map.empty = Inl e"
    using accumulate_Inr_iff [of fs Map.empty] by (cases "accumulate fs Map.empty") auto
  from accumulate_Inl [OF e wf] obtain pre2 g2 post2 k' a w t1 where
    fs2: "fs = pre2 @ g2 # post2" and acc: "accumulate pre2 Map.empty = Inr t1"
    and e': "e = CollisionError (category g2) k' a (name g2)"
    and kg2: "k' \<in> fst ` set (content g2)" and own: "t1 (category g2, k') = Some (a, w)"
    by blast
  from acc have "t1 = map_of (entries pre2)" unfolding accumulate_Inr_iff by simp
  with own have "((category g2, k'), (a, w)) \<in> set (entries pre2)" by (auto dest: map_of_SomeD)
  then obtain g1 where g1: "g1 \<in> set pre2" "category g1 = category g2" "name g1 = a"
    "(k', w) \<in> set (content g1)" unfolding entries_mem by blast
  from g1(1) obtain pre1 mid1 where "pre2 = pre1 @ g1 # mid1" by (auto simp: in_set_conv_decomp)
  with fs2 have "fs = pre1 @ g1 # mid1 @ g2 # post2" by simp
  moreover have "merge resolve_qualify fs = Inl (CollisionError (category g2) k' (name g1) (name g2))"
    using e e' g1(3) by (simp add: merge_def)
  moreover have "k' \<in> fst ` set (content g1)" using g1(4) by force
  ultimately show ?thesis using g1(2) kg2 by blast
qed

theorem collision_detected_witness:
  "merge keep_references [pets, users] = Inl (CollisionError ''schemas'' ''Foo'' ''pets'' ''users'')"
proof -
  have wf: "\<forall>f \<in> set [pets, users]. distinct (map fst (content f))"
    by (simp add: pets_def users_def)
  have fs: "[pets, users] = [] @ pets # [] @ users # []" by simp
  have c: "category pets = category users" by (simp add: pets_def users_def)
  have k1: "''Foo'' \<in> fst ` set (content pets)" by (simp add: pets_def)
  have k2: "''Foo'' \<in> fst ` set (content users)" by (simp add: users_def)
  from collision_detected [OF wf fs c k1 k2, of keep_references]
  obtain s k' g1 g2 pre' mid' post' where
    m: "merge keep_references [pets, users] = Inl (CollisionError s k' (name g1) (name g2))"
    and d: "[pets, users] = pre' @ g1 # mid' @ g2 # post'"
    and s: "category g1 = s"
    and k: "k' \<in> fst ` set (content g1)" "k' \<in> fst ` set (content g2)"
    by blast
  from d have "g1 = pets \<and> g2 = users"
    by (auto simp: Cons_eq_append_conv)
  with m s k show ?thesis by (auto simp: pets_def users_def)
qed

subsection \<open>Merge order\<close>



lemma merged_example:
  "map_sum id (\<lambda>d. (d (''schemas'', ''Foo''), d (''tags'', ''Foo''), d (''schemas'', ''User'')))
     (merge keep_references [tags, pets])
   = Inr (Some (Scalar ''object''), Some (Scalar ''a tag''), None)"
  by (simp add: merge_def keep_references_def pets_def tags_def)

end
